theory Spec2Isabelle
  imports Main "HOL-Library.Multiset"
begin

section \<open>Values, exceptions and the world of the bot\<close>

text \<open>
  The program is \<^verbatim>\<open>src/main.py\<close>, class \<^verbatim>\<open>SecureFarcasterBot\<close>. Its methods are
  embedded as functions that take the world before the call and return the outcome
  together with the world after it. An outcome is \<open>Inr v\<close> when the method returns
  \<open>v\<close> and \<open>Inl e\<close> when the exception \<open>e\<close> leaves the method.

  A JSON document as \<^verbatim>\<open>response.json()\<close> delivers it: \<^verbatim>\<open>None\<close>, a bool, an int, a
  str, a list or a dict. A dict is the list of its items; the value of a key is its first
  binding. Characters are the 8-bit \<open>char\<close> of HOL, so code points above 255 are not
  represented, and JSON numbers with a fraction or an exponent (Python floats) are outside
  the model.
\<close>

datatype json =
    JNull
  | JBool bool
  | JInt int
  | JStr string
  | JList "json list"
  | JObj "(string \<times> json) list"

datatype exn =
    ValueError | TypeError | AttributeError | KeyError | JSONDecodeError
  | OverflowError | OSError

text \<open>
  What the bot reads of a \<^verbatim>\<open>requests.Response\<close>: \<^verbatim>\<open>status_code\<close>,
  \<^verbatim>\<open>headers.get('Retry-After')\<close> and \<^verbatim>\<open>json()\<close>, which raises when the body does not
  parse (\<open>json_body = None\<close>).
\<close>

record response =
  status_code :: int
  retry_after :: "string option"
  json_body :: "json option"

text \<open>The keyword arguments of \<^verbatim>\<open>session.request\<close> (\<open>http_method\<close> is \<^verbatim>\<open>method\<close>).\<close>

record request =
  http_method :: string
  url :: string
  authorization :: string
  json_payload :: json
  request_timeout :: int

datatype outcome = Response response | RequestException

text \<open>
  The trace lists, in order, the requests sent (each with what the transport answered),
  the sleeps taken and the two lines that
  announce a unit of work (the header line of \<^verbatim>\<open>execute_focused_action\<close> and the batch
  line of \<^verbatim>\<open>run_focused_mode\<close>). \<open>Sleep n\<close> is \<^verbatim>\<open>time.sleep(n)\<close> for an integer,
  \<open>Sleep_uniform a b\<close> is \<^verbatim>\<open>time.sleep(random.uniform(a, b))\<close>: only the bounds are
  recorded.
\<close>

datatype event =
    Request request outcome
  | Sleep int
  | Sleep_uniform nat nat
  | Print_focus int string int
  | Print_batch int int string

record world =
  calls :: nat
  trace :: "event list"

text \<open>
  The environment is everything the program does not decide: what the \<open>k\<close>-th call of
  \<^verbatim>\<open>session.request\<close> answers to the request it is given, the numbers that
  \<^verbatim>\<open>random.shuffle\<close> draws, the interpreter's limit on the digits of a string that
  \<^verbatim>\<open>int\<close> converts (4300 by default from Python 3.11 on, 0 for no limit), and the
  longest sleep that the platform's clock takes after \<open>k\<close> requests. The user-agent
  chosen before each attempt is not recorded: the transport may answer anything at every
  call, which covers every choice.
\<close>

record env =
  transport :: "nat \<Rightarrow> request \<Rightarrow> outcome"
  randbelow :: "nat \<Rightarrow> nat \<Rightarrow> nat"
  int_max_str_digits :: nat
  sleep_max :: "nat \<Rightarrow> int"

text \<open>
  The fields of \<^verbatim>\<open>self\<close> after \<^verbatim>\<open>__init__\<close>. The configuration is taken to be
  well-formed: \<^verbatim>\<open>api_url\<close> is present and the four delay bounds are present, not
  negative and far below the longest sleep.
\<close>

record delays =
  min_delay :: nat
  max_delay :: nat
  follow_min :: nat
  follow_max :: nat

record bot =
  api_url :: string
  feed_key :: json
  feed_type :: json
  rate_limit_delay :: delays
  batch_size :: int
  timeout :: int
  max_retries :: int

definition emit :: "event \<Rightarrow> world \<Rightarrow> world" where
  "emit e w = w\<lparr>trace := trace w @ [e]\<rparr>"

text \<open>
  \<^verbatim>\<open>time.sleep(n)\<close> for an integer \<open>n\<close>. A negative length raises \<^verbatim>\<open>ValueError\<close>. A
  length of more than \<open>2^63 - 1\<close> nanoseconds, that is from 9223372037 seconds on, raises
  \<^verbatim>\<open>OverflowError\<close>. Below that the platform refuses a sleep that would end beyond the
  range of its clock (on Linux with \<^verbatim>\<open>OSError\<close>, once the monotonic clock plus the
  length reaches second 9223372036): a length of at most \<open>2^32\<close> seconds is always
  taken, for a longer one the environment decides.
\<close>

definition can_sleep :: "env \<Rightarrow> nat \<Rightarrow> int \<Rightarrow> bool" where
  "can_sleep E k n = (n \<le> 4294967296 \<or> (n \<le> 9223372036 \<and> n \<le> sleep_max E k))"

definition sleep :: "env \<Rightarrow> int \<Rightarrow> world \<Rightarrow> (exn + unit) \<times> world" where
  "sleep E n w =
     (if n < 0 then (Inl ValueError, w)
      else if 9223372036 < n then (Inl OverflowError, w)
      else if can_sleep E (calls w) n then (Inr (), emit (Sleep n) w)
      else (Inl OSError, w))"

subsection \<open>The conversion \<^verbatim>\<open>int(s)\<close> of a string\<close>

text \<open>
  Python strips white space at both ends, reads one optional sign, and then wants decimal
  digits, where single underscores may stand between two digits. Anything else raises
  \<^verbatim>\<open>ValueError\<close>, and so does a string with more digits than the interpreter's limit.
\<close>

definition py_isspace :: "char \<Rightarrow> bool" where
  "py_isspace c = (of_char c \<in> {9, 10, 11, 12, 13, 32, 133, 160 :: nat})"

definition is_digit :: "char \<Rightarrow> bool" where
  "is_digit c = (48 \<le> (of_char c :: nat) \<and> (of_char c :: nat) \<le> 57)"

fun digits_ok :: "string \<Rightarrow> bool" where
  "digits_ok [] = False"
| "digits_ok [c] = is_digit c"
| "digits_ok (c # d # cs) =
     (is_digit c \<and> (if d = CHR ''_'' then digits_ok cs else digits_ok (d # cs)))"

definition digits_value :: "string \<Rightarrow> int" where
  "digits_value s = foldl (\<lambda>a c. 10 * a + (int (of_char c) - 48)) 0 (filter is_digit s)"

definition py_strip :: "string \<Rightarrow> string" where
  "py_strip s = rev (dropWhile py_isspace (rev (dropWhile py_isspace s)))"

definition py_int :: "nat \<Rightarrow> string \<Rightarrow> exn + int" where
  "py_int lim s =
     (let t = py_strip s;
          neg = (t \<noteq> [] \<and> hd t = CHR ''-'');
          b = (if t \<noteq> [] \<and> (hd t = CHR ''-'' \<or> hd t = CHR ''+'') then tl t else t)
      in if \<not> digits_ok b then Inl ValueError
         else if 0 < lim \<and> lim < length (filter is_digit b) then Inl ValueError
         else Inr (if neg then - digits_value b else digits_value b))"

section \<open>The retrying request client: \<^verbatim>\<open>make_request\<close>\<close>

text \<open>
  \<^verbatim>\<open>int(response.headers.get('Retry-After', 60))\<close>: 60 when the header is absent, the
  converted header otherwise.
\<close>

definition retry_after_seconds :: "env \<Rightarrow> response \<Rightarrow> exn + int" where
  "retry_after_seconds E r =
     (case retry_after r of None \<Rightarrow> Inr 60 | Some s \<Rightarrow> py_int (int_max_str_digits E) s)"

definition send :: "request \<Rightarrow> outcome \<Rightarrow> world \<Rightarrow> world" where
  "send req out w = emit (Request req out) (w\<lparr>calls := Suc (calls w)\<rparr>)"

text \<open>
  The body of \<^verbatim>\<open>for attempt in range(self.max_retries)\<close>, entered at \<open>attempt\<close>. When
  the range is used up the method ends without a \<^verbatim>\<open>return\<close>, which yields \<^verbatim>\<open>None\<close>.
\<close>

function make_request_loop ::
  "env \<Rightarrow> bot \<Rightarrow> request \<Rightarrow> int \<Rightarrow> world \<Rightarrow> (exn + response option) \<times> world" where
  "make_request_loop E B req attempt w =
     (if attempt < max_retries B then
        (let out = transport E (calls w) req;
             w1 = send req out w in
         case out of
           Response r \<Rightarrow>
             if status_code r = 429 then
               (case retry_after_seconds E r of
                  Inl e \<Rightarrow> (Inl e, w1)
                | Inr n \<Rightarrow>
                    (case sleep E n w1 of
                       (Inl e, w2) \<Rightarrow> (Inl e, w2)
                     | (Inr u, w2) \<Rightarrow> make_request_loop E B req (attempt + 1) w2))
             else (Inr (Some r), w1)
         | RequestException \<Rightarrow>
             if attempt < max_retries B - 1 then
               (case sleep E (2 ^ nat attempt) w1 of
                  (Inl e, w2) \<Rightarrow> (Inl e, w2)
                | (Inr u, w2) \<Rightarrow> make_request_loop E B req (attempt + 1) w2)
             else (Inr None, w1))
      else (Inr None, w))"
  by pat_completeness auto
termination
  by (relation "measure (\<lambda>(E, B, req, attempt, w). nat (max_retries B - attempt))") auto

declare make_request_loop.simps [simp del]

text \<open>The request that \<^verbatim>\<open>make_request\<close> hands to \<^verbatim>\<open>session.request\<close> at every attempt.\<close>

definition mk_request :: "bot \<Rightarrow> string \<Rightarrow> string \<Rightarrow> string \<Rightarrow> json \<Rightarrow> request" where
  "mk_request B meth endpoint bearer_token payload =
     \<lparr>http_method = meth, url = api_url B @ ''/'' @ endpoint,
      authorization = ''Bearer '' @ bearer_token,
      json_payload = payload, request_timeout = timeout B\<rparr>"

definition make_request ::
  "env \<Rightarrow> bot \<Rightarrow> string \<Rightarrow> string \<Rightarrow> string \<Rightarrow> json \<Rightarrow> world
     \<Rightarrow> (exn + response option) \<times> world" where
  "make_request E B meth endpoint bearer_token payload w =
     make_request_loop E B (mk_request B meth endpoint bearer_token payload) 0 w"

section \<open>Python's operations on JSON values\<close>

text \<open>Truth value of a JSON value in a condition.\<close>

fun py_truthy :: "json \<Rightarrow> bool" where
  "py_truthy JNull = False"
| "py_truthy (JBool b) = b"
| "py_truthy (JInt n) = (n \<noteq> 0)"
| "py_truthy (JStr s) = (s \<noteq> [])"
| "py_truthy (JList xs) = (xs \<noteq> [])"
| "py_truthy (JObj kvs) = (kvs \<noteq> [])"

fun py_substr :: "string \<Rightarrow> string \<Rightarrow> bool" where
  "py_substr k [] = (k = [])"
| "py_substr k (c # s) = (take (length k) (c # s) = k \<or> py_substr k s)"

text \<open>
  \<^verbatim>\<open>k in x\<close> for a str \<open>k\<close>: a key of a dict, an element of a list, a substring of a
  str; \<^verbatim>\<open>TypeError\<close> on \<^verbatim>\<open>None\<close>, a bool or an int.
\<close>

fun py_in :: "string \<Rightarrow> json \<Rightarrow> exn + bool" where
  "py_in k (JObj kvs) = Inr (k \<in> set (map fst kvs))"
| "py_in k (JList xs) = Inr (JStr k \<in> set xs)"
| "py_in k (JStr s) = Inr (py_substr k s)"
| "py_in k x = Inl TypeError"

text \<open>\<^verbatim>\<open>x[k]\<close> for a str \<open>k\<close>: only a dict can be subscripted by a str.\<close>

fun py_getitem :: "json \<Rightarrow> string \<Rightarrow> exn + json" where
  "py_getitem (JObj kvs) k = (case map_of kvs k of None \<Rightarrow> Inl KeyError | Some v \<Rightarrow> Inr v)"
| "py_getitem x k = Inl TypeError"

text \<open>\<^verbatim>\<open>x.get(k, d)\<close>: only a dict has the method.\<close>

fun py_get :: "json \<Rightarrow> string \<Rightarrow> json \<Rightarrow> exn + json" where
  "py_get (JObj kvs) k d = Inr (case map_of kvs k of None \<Rightarrow> d | Some v \<Rightarrow> v)"
| "py_get x k d = Inl AttributeError"

text \<open>\<^verbatim>\<open>xs[:n]\<close>: a negative \<open>n\<close> counts from the end.\<close>

definition py_take :: "int \<Rightarrow> 'a list \<Rightarrow> 'a list" where
  "py_take n xs = (if 0 \<le> n then take (nat n) xs else take (length xs - nat (- n)) xs)"

text \<open>
  The values that \<^verbatim>\<open>for item in x[:n]\<close> runs through: the elements of a list, the
  one-character strings of a str. Slicing anything else raises (\<^verbatim>\<open>TypeError\<close>; on a dict
  Python 3.12 raises \<^verbatim>\<open>KeyError\<close> instead).
\<close>

fun py_slice_items :: "json \<Rightarrow> int \<Rightarrow> exn + json list" where
  "py_slice_items (JList xs) n = Inr (py_take n xs)"
| "py_slice_items (JStr s) n = Inr (map (\<lambda>c. JStr [c]) (py_take n s))"
| "py_slice_items x n = Inl TypeError"

text \<open>
  A Python set of JSON values, kept as the list of its elements. Lists and dicts cannot be
  hashed; among the others \<^verbatim>\<open>True == 1\<close> and \<^verbatim>\<open>False == 0\<close>.
\<close>

fun py_hashable :: "json \<Rightarrow> bool" where
  "py_hashable (JList xs) = False"
| "py_hashable (JObj kvs) = False"
| "py_hashable x = True"

fun py_num :: "json \<Rightarrow> int option" where
  "py_num (JBool b) = Some (if b then 1 else 0)"
| "py_num (JInt n) = Some n"
| "py_num x = None"

definition py_eq :: "json \<Rightarrow> json \<Rightarrow> bool" where
  "py_eq a b =
     (case (py_num a, py_num b) of
        (Some x, Some y) \<Rightarrow> x = y
      | (None, None) \<Rightarrow> a = b
      | _ \<Rightarrow> False)"

definition py_set_contains :: "json list \<Rightarrow> json \<Rightarrow> exn + bool" where
  "py_set_contains s v = (if py_hashable v then Inr (\<exists>x \<in> set s. py_eq x v) else Inl TypeError)"

definition py_set_add :: "json \<Rightarrow> json list \<Rightarrow> json list" where
  "py_set_add v s = (if \<exists>x \<in> set s. py_eq x v then s else s @ [v])"

text \<open>
  \<^verbatim>\<open>random.shuffle(x)\<close>: for \<open>i\<close> from \<open>len(x) - 1\<close> down to 1, swap \<open>x[i]\<close> with
  \<open>x[j]\<close> for a drawn \<open>j < i + 1\<close>. The draws of the shuffle made at time \<open>k\<close> are
  \<open>randbelow E k\<close>.
\<close>

fun shuffle_from :: "env \<Rightarrow> nat \<Rightarrow> nat \<Rightarrow> 'a list \<Rightarrow> 'a list" where
  "shuffle_from E k 0 x = x"
| "shuffle_from E k (Suc i) x =
     (let j = randbelow E k (Suc i + 1) mod (Suc i + 1)
      in shuffle_from E k i (x[Suc i := x ! j, j := x ! Suc i]))"

definition shuffle :: "env \<Rightarrow> nat \<Rightarrow> 'a list \<Rightarrow> 'a list" where
  "shuffle E k x = shuffle_from E k (length x - 1) x"

section \<open>The feed fetcher: \<^verbatim>\<open>get_feed\<close>\<close>

text \<open>An entry of \<^verbatim>\<open>cast_data\<close>; \<open>excerpt\<close> is the value under the key \<^verbatim>\<open>'text'\<close>.\<close>

record cast_info =
  hash :: json
  fid :: json
  excerpt :: string

text \<open>The truth value of a response is its \<^verbatim>\<open>ok\<close>: no status from 400 to 599.\<close>

definition response_bool :: "response \<Rightarrow> bool" where
  "response_bool r = (\<not> (400 \<le> status_code r \<and> status_code r < 600))"

text \<open>
  The body of \<^verbatim>\<open>for item in data['result']['items'][:limit]\<close>: \<open>Inr None\<close> when the
  item adds nothing to \<^verbatim>\<open>cast_data\<close>.
\<close>

definition feed_item :: "json \<Rightarrow> exn + cast_info option" where
  "feed_item item =
     (case py_in ''cast'' item of
        Inl e \<Rightarrow> Inl e
      | Inr False \<Rightarrow> Inr None
      | Inr True \<Rightarrow>
     (case py_getitem item ''cast'' of
        Inl e \<Rightarrow> Inl e
      | Inr c \<Rightarrow>
     (case py_get c ''hash'' JNull of
        Inl e \<Rightarrow> Inl e
      | Inr cast_hash \<Rightarrow>
     (case py_get c ''author'' (JObj []) of
        Inl e \<Rightarrow> Inl e
      | Inr author \<Rightarrow>
     (case py_get author ''fid'' JNull of
        Inl e \<Rightarrow> Inl e
      | Inr author_fid \<Rightarrow>
          if py_truthy cast_hash \<and> py_truthy author_fid then
            (case py_get c ''text'' JNull of
               Inl e \<Rightarrow> Inl e
             | Inr t \<Rightarrow>
                 if py_truthy t then
                   (case t of
                      JStr s \<Rightarrow>
                        Inr (Some \<lparr>hash = cast_hash, fid = author_fid,
                                   excerpt = take 100 s @ ''...''\<rparr>)
                    | _ \<Rightarrow> Inl TypeError)
                 else Inr (Some \<lparr>hash = cast_hash, fid = author_fid, excerpt = []\<rparr>))
          else Inr None)))))"

fun feed_items :: "json list \<Rightarrow> cast_info list \<Rightarrow> exn + cast_info list" where
  "feed_items [] cast_data = Inr cast_data"
| "feed_items (item # items) cast_data =
     (case feed_item item of
        Inl e \<Rightarrow> Inl e
      | Inr None \<Rightarrow> feed_items items cast_data
      | Inr (Some c) \<Rightarrow> feed_items items (cast_data @ [c]))"

text \<open>The branch of \<^verbatim>\<open>get_feed\<close> for a response of status 200, from the parsed body on.\<close>

definition feed_cast_data :: "json \<Rightarrow> int \<Rightarrow> exn + bool \<times> cast_info list" where
  "feed_cast_data data limit =
     (case py_in ''result'' data of
        Inl e \<Rightarrow> Inl e
      | Inr False \<Rightarrow> Inr (True, [])
      | Inr True \<Rightarrow>
     (case py_getitem data ''result'' of
        Inl e \<Rightarrow> Inl e
      | Inr res \<Rightarrow>
     (case py_in ''items'' res of
        Inl e \<Rightarrow> Inl e
      | Inr False \<Rightarrow> Inr (True, [])
      | Inr True \<Rightarrow>
     (case py_getitem res ''items'' of
        Inl e \<Rightarrow> Inl e
      | Inr its \<Rightarrow>
     (case py_slice_items its limit of
        Inl e \<Rightarrow> Inl e
      | Inr xs \<Rightarrow>
     (case feed_items xs [] of
        Inl e \<Rightarrow> Inl e
      | Inr cast_data \<Rightarrow> Inr (True, cast_data)))))))"

definition feed_payload :: "bot \<Rightarrow> json" where
  "feed_payload B =
     JObj [(''feedKey'', feed_key B), (''feedType'', feed_type B),
           (''castViewEvents'', JList []), (''updateState'', JBool True)]"

definition get_feed ::
  "env \<Rightarrow> bot \<Rightarrow> string \<Rightarrow> int \<Rightarrow> world \<Rightarrow> (exn + bool \<times> cast_info list) \<times> world" where
  "get_feed E B bearer_token limit w =
     (case make_request E B ''POST'' ''feed-items'' bearer_token (feed_payload B) w of
        (Inl e, w1) \<Rightarrow> (Inl e, w1)
      | (Inr None, w1) \<Rightarrow> (Inr (False, []), w1)
      | (Inr (Some r), w1) \<Rightarrow>
          if response_bool r \<and> status_code r = 200 then
            (case json_body r of
               None \<Rightarrow> (Inl JSONDecodeError, w1)
             | Some data \<Rightarrow> (feed_cast_data data limit, w1))
          else (Inr (False, []), w1))"

section \<open>The action executor\<close>

text \<open>\<^verbatim>\<open>response.status_code == c if response else False\<close>\<close>

definition status_is :: "int \<Rightarrow> response option \<Rightarrow> bool" where
  "status_is c resp =
     (case resp of None \<Rightarrow> False | Some r \<Rightarrow> if response_bool r then status_code r = c else False)"

definition like_cast ::
  "env \<Rightarrow> bot \<Rightarrow> string \<Rightarrow> json \<Rightarrow> world \<Rightarrow> (exn + bool) \<times> world" where
  "like_cast E B bearer_token cast_hash w =
     (case make_request E B ''PUT'' ''cast-likes'' bearer_token
             (JObj [(''castHash'', cast_hash)]) w of
        (Inl e, w1) \<Rightarrow> (Inl e, w1)
      | (Inr resp, w1) \<Rightarrow> (Inr (status_is 200 resp), w1))"

definition recast ::
  "env \<Rightarrow> bot \<Rightarrow> string \<Rightarrow> json \<Rightarrow> world \<Rightarrow> (exn + bool) \<times> world" where
  "recast E B bearer_token cast_hash w =
     (case make_request E B ''PUT'' ''recasts'' bearer_token
             (JObj [(''castHash'', cast_hash)]) w of
        (Inl e, w1) \<Rightarrow> (Inl e, w1)
      | (Inr resp, w1) \<Rightarrow> (Inr (status_is 200 resp), w1))"

definition follow_user ::
  "env \<Rightarrow> bot \<Rightarrow> string \<Rightarrow> json \<Rightarrow> world \<Rightarrow> (exn + bool) \<times> world" where
  "follow_user E B bearer_token target_fid w =
     (case make_request E B ''PUT'' ''follows'' bearer_token
             (JObj [(''targetFid'', target_fid)]) w of
        (Inl e, w1) \<Rightarrow> (Inl e, w1)
      | (Inr resp, w1) \<Rightarrow> (Inr (status_is 200 resp), w1))"

definition post_cast ::
  "env \<Rightarrow> bot \<Rightarrow> string \<Rightarrow> string \<Rightarrow> world \<Rightarrow> (exn + bool) \<times> world" where
  "post_cast E B bearer_token txt w =
     (case make_request E B ''POST'' ''casts'' bearer_token
             (JObj [(''text'', JStr txt), (''embeds'', JList [])]) w of
        (Inl e, w1) \<Rightarrow> (Inl e, w1)
      | (Inr resp, w1) \<Rightarrow> (Inr (status_is 201 resp), w1))"

section \<open>The focused-action runner: \<^verbatim>\<open>execute_focused_action\<close>\<close>

text \<open>\<^verbatim>\<open>cast_hash[:10] + "..."\<close>: only a str can be sliced and then joined to a str.\<close>

fun short_hash :: "json \<Rightarrow> exn + string" where
  "short_hash (JStr s) = Inr (take 10 s @ ''...'')"
| "short_hash x = Inl TypeError"

text \<open>
  The chain \<^verbatim>\<open>if action_type == 'like' ... elif ... 'recast' ... elif ... 'follow'\<close> for
  one target. \<open>Inr None\<close> is the \<^verbatim>\<open>continue\<close> of an author already followed (the caller
  adds one to \<^verbatim>\<open>success_count\<close>); otherwise the result is \<^verbatim>\<open>success\<close> and the
  followed-set after the step.
\<close>

definition focus_dispatch ::
  "env \<Rightarrow> bot \<Rightarrow> string \<Rightarrow> string \<Rightarrow> cast_info \<Rightarrow> json list \<Rightarrow> world
     \<Rightarrow> (exn + (bool \<times> json list) option) \<times> world" where
  "focus_dispatch E B bearer_token action_type c followed_fids w =
     (if action_type = ''like'' then
        (case like_cast E B bearer_token (hash c) w of
           (Inl e, w1) \<Rightarrow> (Inl e, w1)
         | (Inr success, w1) \<Rightarrow> (Inr (Some (success, followed_fids)), w1))
      else if action_type = ''recast'' then
        (case recast E B bearer_token (hash c) w of
           (Inl e, w1) \<Rightarrow> (Inl e, w1)
         | (Inr success, w1) \<Rightarrow> (Inr (Some (success, followed_fids)), w1))
      else if action_type = ''follow'' then
        (case py_set_contains followed_fids (fid c) of
           Inl e \<Rightarrow> (Inl e, w)
         | Inr True \<Rightarrow> (Inr None, w)
         | Inr False \<Rightarrow>
             (case follow_user E B bearer_token (fid c) w of
                (Inl e, w1) \<Rightarrow> (Inl e, w1)
              | (Inr success, w1) \<Rightarrow>
                  (Inr (Some (success,
                     if success then py_set_add (fid c) followed_fids else followed_fids)), w1)))
      else (Inr (Some (False, followed_fids)), w))"

text \<open>The sleep between two targets.\<close>

definition action_wait :: "bot \<Rightarrow> string \<Rightarrow> event" where
  "action_wait B action_type =
     (if action_type = ''follow''
      then Sleep_uniform (follow_min (rate_limit_delay B)) (follow_max (rate_limit_delay B))
      else Sleep_uniform (min_delay (rate_limit_delay B)) (max_delay (rate_limit_delay B)))"

text \<open>
  \<^verbatim>\<open>for idx, cast_info in enumerate(selected_casts, 1)\<close>, with the loop's variables
  \<open>idx\<close>, \<open>success_count\<close> and \<open>followed_fids\<close>; it returns the last two.
\<close>

fun focus_loop ::
  "env \<Rightarrow> bot \<Rightarrow> string \<Rightarrow> string \<Rightarrow> int \<Rightarrow> cast_info list \<Rightarrow> int \<Rightarrow> int \<Rightarrow> json list
     \<Rightarrow> world \<Rightarrow> (exn + int \<times> json list) \<times> world" where
  "focus_loop E B bearer_token action_type target_count [] idx success_count followed_fids w =
     (Inr (success_count, followed_fids), w)"
| "focus_loop E B bearer_token action_type target_count (c # cs) idx success_count
       followed_fids w =
     (case short_hash (hash c) of
        Inl e \<Rightarrow> (Inl e, w)
      | Inr sh \<Rightarrow>
          (case focus_dispatch E B bearer_token action_type c followed_fids w of
             (Inl e, w1) \<Rightarrow> (Inl e, w1)
           | (Inr None, w1) \<Rightarrow>
               focus_loop E B bearer_token action_type target_count cs (idx + 1)
                 (success_count + 1) followed_fids w1
           | (Inr (Some (success, followed1)), w1) \<Rightarrow>
               focus_loop E B bearer_token action_type target_count cs (idx + 1)
                 (if success then success_count + 1 else success_count) followed1
                 (if idx < target_count then emit (action_wait B action_type) w1 else w1)))"

text \<open>
  The target count after \<^verbatim>\<open>if len(cast_data) < target_count\<close>, and
  \<^verbatim>\<open>selected_casts\<close>: the shuffled feed cut to that count.
\<close>

definition effective_target :: "cast_info list \<Rightarrow> int \<Rightarrow> int" where
  "effective_target cast_data target_count =
     (if int (length cast_data) < target_count then int (length cast_data) else target_count)"

definition select_casts :: "env \<Rightarrow> nat \<Rightarrow> cast_info list \<Rightarrow> int \<Rightarrow> cast_info list" where
  "select_casts E k cast_data target_count =
     py_take (effective_target cast_data target_count) (shuffle E k cast_data)"

definition execute_focused_action ::
  "env \<Rightarrow> bot \<Rightarrow> string \<Rightarrow> int \<Rightarrow> string \<Rightarrow> int \<Rightarrow> world \<Rightarrow> (exn + int) \<times> world" where
  "execute_focused_action E B bearer_token account_idx action_type target_count w =
     (case get_feed E B bearer_token (max 100 (target_count * 2))
             (emit (Print_focus account_idx action_type target_count) w) of
        (Inl e, w1) \<Rightarrow> (Inl e, w1)
      | (Inr (success, cast_data), w1) \<Rightarrow>
          if \<not> success \<or> cast_data = [] then (Inr 0, w1)
          else
            (case focus_loop E B bearer_token action_type
                    (effective_target cast_data target_count)
                    (select_casts E (calls w1) cast_data target_count) 1 0 [] w1 of
               (Inl e, w2) \<Rightarrow> (Inl e, w2)
             | (Inr (success_count, followed_fids), w2) \<Rightarrow> (Inr success_count, w2)))"

section \<open>The action loops of \<^verbatim>\<open>run_focused_mode\<close> and \<^verbatim>\<open>run_continuous_mode\<close>\<close>

text \<open>
  Both methods run, for one account, \<^verbatim>\<open>for action in selected_actions\<close>. The dicts
  \<^verbatim>\<open>action_targets\<close> and \<^verbatim>\<open>total_stats\<close> are lists of items with distinct keys. The
  prompts, the post step and the waits between accounts are the same text in both methods
  and are not embedded.
\<close>

type_synonym stats = "(string \<times> int) list"

text \<open>\<^verbatim>\<open>total_stats[action] += success\<close>\<close>

definition stats_add :: "string \<Rightarrow> int \<Rightarrow> stats \<Rightarrow> exn + stats" where
  "stats_add action success total_stats =
     (case map_of total_stats action of
        None \<Rightarrow> Inl KeyError
      | Some v \<Rightarrow>
          Inr (map (\<lambda>(k, x). if k = action then (k, v + success) else (k, x)) total_stats))"

text \<open>
  \<^verbatim>\<open>while remaining > 0\<close> of \<^verbatim>\<open>run_focused_mode\<close>. The loop need not end (a batch size
  that is not positive never lowers \<open>remaining\<close>), so it is a partial function: \<open>None\<close>
  is a run that never returns.
\<close>

partial_function (option) batch_loop ::
  "env \<Rightarrow> bot \<Rightarrow> string \<Rightarrow> int \<Rightarrow> string \<Rightarrow> int \<Rightarrow> int \<Rightarrow> int \<Rightarrow> stats \<Rightarrow> world
     \<Rightarrow> ((exn + stats) \<times> world) option" where
  "batch_loop E B bearer_token idx action batch_size1 remaining batch_count total_stats w =
     (if remaining > 0 then
        (let current_batch = min batch_size1 remaining;
             batch_count1 = batch_count + 1
         in case execute_focused_action E B bearer_token idx action current_batch
                   (emit (Print_batch batch_count1 current_batch action) w) of
              (Inl e, w1) \<Rightarrow> Some (Inl e, w1)
            | (Inr success, w1) \<Rightarrow>
                (case stats_add action success total_stats of
                   Inl e \<Rightarrow> Some (Inl e, w1)
                 | Inr total_stats1 \<Rightarrow>
                     batch_loop E B bearer_token idx action batch_size1
                       (remaining - current_batch) batch_count1 total_stats1
                       (if remaining - current_batch > 0
                        then emit (Sleep_uniform 30 60) w1 else w1)))
      else Some (Inr total_stats, w))"

text \<open>The body of \<^verbatim>\<open>for action in selected_actions\<close> in \<^verbatim>\<open>run_focused_mode\<close>.\<close>

definition run_focused_mode_action ::
  "env \<Rightarrow> bot \<Rightarrow> string \<Rightarrow> int \<Rightarrow> string \<Rightarrow> int \<Rightarrow> stats \<Rightarrow> world
     \<Rightarrow> ((exn + stats) \<times> world) option" where
  "run_focused_mode_action E B bearer_token idx action target total_stats w =
     (if target > batch_size B then
        batch_loop E B bearer_token idx action (min (batch_size B) target) target 0
          total_stats w
      else
        (case execute_focused_action E B bearer_token idx action target w of
           (Inl e, w1) \<Rightarrow> Some (Inl e, w1)
         | (Inr success, w1) \<Rightarrow>
             (case stats_add action success total_stats of
                Inl e \<Rightarrow> Some (Inl e, w1)
              | Inr total_stats1 \<Rightarrow> Some (Inr total_stats1, w1))))"

fun run_focused_mode_actions ::
  "env \<Rightarrow> bot \<Rightarrow> string \<Rightarrow> int \<Rightarrow> string list \<Rightarrow> stats \<Rightarrow> stats \<Rightarrow> world
     \<Rightarrow> ((exn + stats) \<times> world) option" where
  "run_focused_mode_actions E B bearer_token idx [] action_targets total_stats w =
     Some (Inr total_stats, w)"
| "run_focused_mode_actions E B bearer_token idx (action # actions) action_targets
       total_stats w =
     (case map_of action_targets action of
        None \<Rightarrow> Some (Inl KeyError, w)
      | Some target \<Rightarrow>
          (case run_focused_mode_action E B bearer_token idx action target total_stats w of
             None \<Rightarrow> None
           | Some (Inl e, w1) \<Rightarrow> Some (Inl e, w1)
           | Some (Inr total_stats1, w1) \<Rightarrow>
               run_focused_mode_actions E B bearer_token idx actions action_targets
                 total_stats1 w1))"

text \<open>The same loop in \<^verbatim>\<open>run_continuous_mode\<close>.\<close>

fun run_continuous_mode_actions ::
  "env \<Rightarrow> bot \<Rightarrow> string \<Rightarrow> int \<Rightarrow> string list \<Rightarrow> stats \<Rightarrow> stats \<Rightarrow> world
     \<Rightarrow> (exn + stats) \<times> world" where
  "run_continuous_mode_actions E B bearer_token idx [] action_targets total_stats w =
     (Inr total_stats, w)"
| "run_continuous_mode_actions E B bearer_token idx (action # actions) action_targets
       total_stats w =
     (case map_of action_targets action of
        None \<Rightarrow> (Inl KeyError, w)
      | Some target \<Rightarrow>
          (case execute_focused_action E B bearer_token idx action target w of
             (Inl e, w1) \<Rightarrow> (Inl e, w1)
           | (Inr success, w1) \<Rightarrow>
               (case stats_add action success total_stats of
                  Inl e \<Rightarrow> (Inl e, w1)
                | Inr total_stats1 \<Rightarrow>
                    run_continuous_mode_actions E B bearer_token idx actions action_targets
                      total_stats1 w1)))"

section \<open>Reading a trace\<close>

text \<open>The target counts announced by the runs of \<^verbatim>\<open>execute_focused_action\<close>, in order.\<close>

fun focus_counts :: "event list \<Rightarrow> int list" where
  "focus_counts [] = []"
| "focus_counts (Print_focus i a n # evs) = n # focus_counts evs"
| "focus_counts (ev # evs) = focus_counts evs"

text \<open>The requests sent, in order, each with its answer.\<close>

fun requests :: "event list \<Rightarrow> (request \<times> outcome) list" where
  "requests [] = []"
| "requests (Request r out # evs) = (r, out) # requests evs"
| "requests (ev # evs) = requests evs"

text \<open>
  The \<^verbatim>\<open>follows\<close> requests of a trace: the author ids they name, and those among them
  that were answered by status 200 (the successful follow calls).
\<close>

definition follow_request :: "bot \<Rightarrow> json \<Rightarrow> request \<Rightarrow> bool" where
  "follow_request B v r =
     (url r = api_url B @ ''/follows'' \<and> json_payload r = JObj [(''targetFid'', v)])"

definition follow_targets :: "bot \<Rightarrow> event list \<Rightarrow> json set" where
  "follow_targets B evs = {v. \<exists>ro \<in> set (requests evs). follow_request B v (fst ro)}"

fun answered_200 :: "outcome \<Rightarrow> bool" where
  "answered_200 (Response r) = (status_code r = 200)"
| "answered_200 RequestException = False"

definition follow_successes :: "bot \<Rightarrow> event list \<Rightarrow> (request \<times> outcome) list" where
  "follow_successes B evs =
     filter (\<lambda>ro. url (fst ro) = api_url B @ ''/follows'' \<and> answered_200 (snd ro))
       (requests evs)"

text \<open>The events that a run adds to the trace.\<close>

definition new_events :: "world \<Rightarrow> world \<Rightarrow> event list" where
  "new_events w w' = drop (length (trace w)) (trace w')"

text \<open>
  The trace of \<open>m\<close> attempts, the first of them the request number \<open>k0\<close>, each
  followed by a sleep of \<open>d k\<close> seconds.
\<close>

definition rate_limited_trace ::
  "env \<Rightarrow> request \<Rightarrow> (nat \<Rightarrow> int) \<Rightarrow> nat \<Rightarrow> nat \<Rightarrow> event list" where
  "rate_limited_trace E req d k0 m =
     concat (map (\<lambda>k. [Request req (transport E (k0 + k) req), Sleep (d k)]) [0..<m])"

text \<open>The number of waits between two targets or two batches.\<close>

fun is_wait :: "event \<Rightarrow> bool" where
  "is_wait (Sleep_uniform a b) = True"
| "is_wait ev = False"

definition waits :: "event list \<Rightarrow> nat" where
  "waits evs = length (filter is_wait evs)"

text \<open>What one call of the request client adds to the trace.\<close>

definition client_events :: "request \<Rightarrow> (exn + response option) \<Rightarrow> event list \<Rightarrow> bool" where
  "client_events req res evs =
     (focus_counts evs = [] \<and> waits evs = 0 \<and> fst ` set (requests evs) \<subseteq> {req}
      \<and> length (filter (\<lambda>ro. answered_200 (snd ro)) (requests evs)) =
          (case res of Inr (Some r) \<Rightarrow> if status_code r = 200 then 1 else 0 | _ \<Rightarrow> 0))"

text \<open>Events that are no follow request and no header line.\<close>

definition quiet :: "bot \<Rightarrow> event list \<Rightarrow> bool" where
  "quiet B evs =
     (focus_counts evs = [] \<and> follow_targets B evs = {} \<and> follow_successes B evs = [])"

text \<open>
  What a run of the loop in follow mode, started with the followed-set \<open>F\<close> on the
  targets \<open>cs\<close>, leaves behind: the followed-set \<open>F'\<close> and the events \<open>evs\<close>.
\<close>

definition follow_run :: "bot \<Rightarrow> json list \<Rightarrow> cast_info list \<Rightarrow> json list \<Rightarrow> event list \<Rightarrow> bool" where
  "follow_run B F cs F' evs =
     (distinct F' \<and> set F' \<subseteq> set F \<union> fid ` set cs
      \<and> length (follow_successes B evs) + length F = length F'
      \<and> follow_targets B evs \<subseteq> fid ` set cs
      \<and> (0 < max_retries B \<and> (\<forall>c \<in> set cs. \<exists>i. fid c = JInt i)
            \<and> (\<forall>v \<in> set F. \<exists>i. v = JInt i)
          \<longrightarrow> follow_targets B evs = fid ` set cs - set F))"

text \<open>
  The batch sizes that a run of the batch loop, entered with \<open>remaining\<close>, announces
  in the events \<open>evs\<close>: each is positive and at most \<open>bs\<close>, and they add up to
  \<open>remaining\<close> when the loop returns without an exception.
\<close>

definition batches_ok :: "int \<Rightarrow> int \<Rightarrow> (exn + stats) \<Rightarrow> event list \<Rightarrow> bool" where
  "batches_ok bs remaining res evs =
     ((\<forall>b \<in> set (focus_counts evs). 0 < b \<and> b \<le> bs)
      \<and> ((\<exists>st. res = Inr st) \<longrightarrow> sum_list (focus_counts evs) = max remaining 0))"

section \<open>Reading a feed response\<close>

text \<open>
  The specification's words for a feed item: its post id is \<^verbatim>\<open>cast.hash\<close>, its author
  id is \<^verbatim>\<open>cast.author.fid\<close> (\<^verbatim>\<open>None\<close> where a step of the path is missing), and it
  is usable when the post id is non-empty and the author id is non-zero.
\<close>

definition json_field :: "string \<Rightarrow> json \<Rightarrow> json" where
  "json_field k x =
     (case x of JObj kvs \<Rightarrow> (case map_of kvs k of None \<Rightarrow> JNull | Some v \<Rightarrow> v) | _ \<Rightarrow> JNull)"

definition item_hash :: "json \<Rightarrow> json" where
  "item_hash item = json_field ''hash'' (json_field ''cast'' item)"

definition item_fid :: "json \<Rightarrow> json" where
  "item_fid item = json_field ''fid'' (json_field ''author'' (json_field ''cast'' item))"

definition usable :: "json \<Rightarrow> bool" where
  "usable item = (py_truthy (item_hash item) \<and> py_truthy (item_fid item))"

definition item_key :: "json \<Rightarrow> json \<times> json" where
  "item_key item = (item_hash item, item_fid item)"

definition cast_key :: "cast_info \<Rightarrow> json \<times> json" where
  "cast_key c = (hash c, fid c)"

section \<open>Reading the action calls off a trace\<close>

text \<open>
  The requests that a trace sends to an endpoint, the values they carry under a key of the
  payload, and those of the requests that were answered by status 200.
\<close>

definition endpoint_requests :: "bot \<Rightarrow> string \<Rightarrow> event list \<Rightarrow> (request \<times> outcome) list" where
  "endpoint_requests B ep evs =
     filter (\<lambda>ro. url (fst ro) = api_url B @ ''/'' @ ep) (requests evs)"

definition endpoint_calls :: "bot \<Rightarrow> string \<Rightarrow> string \<Rightarrow> event list \<Rightarrow> json list" where
  "endpoint_calls B ep key evs =
     map (\<lambda>ro. json_field key (json_payload (fst ro))) (endpoint_requests B ep evs)"

definition endpoint_successes :: "bot \<Rightarrow> string \<Rightarrow> event list \<Rightarrow> (request \<times> outcome) list" where
  "endpoint_successes B ep evs = filter (\<lambda>ro. answered_200 (snd ro)) (endpoint_requests B ep evs)"

text \<open>The author ids of the follow requests that were answered by status 200.\<close>

definition followed_authors :: "bot \<Rightarrow> event list \<Rightarrow> json list" where
  "followed_authors B evs =
     map (\<lambda>ro. json_field ''targetFid'' (json_payload (fst ro)))
       (endpoint_successes B ''follows'' evs)"

text \<open>\<open>repeat_each ks xs\<close>: each \<open>x\<close> as often as its \<open>k\<close> says, in the order of \<open>xs\<close>.\<close>

definition repeat_each :: "nat list \<Rightarrow> 'a list \<Rightarrow> 'a list" where
  "repeat_each ks xs = concat (map (\<lambda>kx. replicate (fst kx) (snd kx)) (zip ks xs))"

text \<open>
  A run that processes the targets with the values \<open>vals\<close> one after the other, sending
  \<open>ks ! i\<close> requests for the \<open>i\<close>-th of them (none when the target is skipped), and
  returns the count \<open>n\<close>: the requests of the endpoint carry the values in the order of
  the targets, and \<open>n\<close> is the number of requests answered by 200 plus the number of
  skipped targets.
\<close>

definition processed ::
  "bot \<Rightarrow> string \<Rightarrow> string \<Rightarrow> json list \<Rightarrow> int \<Rightarrow> event list \<Rightarrow> nat list \<Rightarrow> bool" where
  "processed B ep key vals n evs ks =
     (length ks = length vals
      \<and> endpoint_calls B ep key evs = repeat_each ks vals
      \<and> n = int (length (endpoint_successes B ep evs)) + int (length (filter (\<lambda>k. k = 0) ks)))"

text \<open>
  The specification's words for the follow mode, as a pattern that the requests per target
  \<open>ks\<close> and the successes per target \<open>ss\<close> must fit, from the followed-set \<open>F\<close>
  on: a target whose author id is in the followed-set is skipped (no request, no success
  of a call); any other target is called (at least one request), and its author id joins
  the followed-set exactly when the call succeeded.
\<close>

definition py_member :: "json list \<Rightarrow> json \<Rightarrow> bool" where
  "py_member F v = (\<exists>x \<in> set F. py_eq x v)"

fun follow_pattern :: "json list \<Rightarrow> json list \<Rightarrow> nat list \<Rightarrow> bool list \<Rightarrow> bool" where
  "follow_pattern F [] [] [] = True"
| "follow_pattern F (v # vs) (k # ks) (s # ss) =
     (if py_member F v then k = 0 \<and> \<not> s \<and> follow_pattern F vs ks ss
      else 1 \<le> k \<and> follow_pattern (if s then F @ [v] else F) vs ks ss)"
| "follow_pattern F vs ks ss = False"

text \<open>The author ids in the order of their first occurrence, without those in \<open>F\<close>.\<close>

fun authors_called :: "json list \<Rightarrow> json list \<Rightarrow> json list" where
  "authors_called F [] = []"
| "authors_called F (v # vs) =
     (if v \<in> set F then authors_called F vs else v # authors_called (F @ [v]) vs)"

text \<open>
  What one call of an action adds to the trace: requests to its endpoint only, all with
  the value \<open>v\<close> (at least one when an attempt is made), one of them answered by 200
  exactly when the call returns true, and no wait.
\<close>

definition action_call :: "bot \<Rightarrow> string \<Rightarrow> string \<Rightarrow> json \<Rightarrow> bool \<Rightarrow> event list \<Rightarrow> bool" where
  "action_call B ep key v s evs =
     (focus_counts evs = [] \<and> waits evs = 0
      \<and> (\<forall>ep'. ep' \<noteq> ep \<longrightarrow> endpoint_requests B ep' evs = [])
      \<and> (\<exists>k. (0 < max_retries B \<longrightarrow> 1 \<le> k) \<and> endpoint_calls B ep key evs = replicate k v)
      \<and> length (endpoint_successes B ep evs) = (if s then 1 else 0))"

text \<open>
  A run in follow mode over targets with the author ids \<open>vals\<close>, started with the
  followed-set \<open>F\<close>, that returns the count \<open>n\<close> and adds the events \<open>evs\<close>:
  the requests per target \<open>ks\<close> and the successes per target \<open>ss\<close> fit the pattern,
  the follow requests of the trace are those of the targets in order, \<open>n\<close> is the number
  of requests answered by 200 plus the number of skipped targets, the requests answered by
  200 name the authors of the targets whose call succeeded, and there is at most one wait
  per target called (none for a skipped target).
\<close>

definition follow_trace ::
  "bot \<Rightarrow> json list \<Rightarrow> json list \<Rightarrow> int \<Rightarrow> event list \<Rightarrow> nat list \<Rightarrow> bool list \<Rightarrow> bool" where
  "follow_trace B F vals n evs ks ss =
     (follow_pattern F vals ks ss
      \<and> processed B ''follows'' ''targetFid'' vals n evs ks
      \<and> followed_authors B evs = map snd (filter fst (zip ss vals))
      \<and> waits evs \<le> length (filter (\<lambda>k. k \<noteq> 0) ks))"

section \<open>Concrete scenarios\<close>

text \<open>The default configuration of \<^verbatim>\<open>load_config\<close>, a fresh world, and a few transports.\<close>

definition bot_default :: bot where
  "bot_default =
     \<lparr>api_url = ''https://farcaster.xyz/~api/v2'', feed_key = JStr ''home'',
      feed_type = JStr ''default'',
      rate_limit_delay = \<lparr>min_delay = 3, max_delay = 8, follow_min = 8, follow_max = 15\<rparr>,
      batch_size = 50, timeout = 30, max_retries = 3\<rparr>"

definition world_start :: world where
  "world_start = \<lparr>calls = 0, trace = []\<rparr>"

definition env_of :: "(nat \<Rightarrow> request \<Rightarrow> outcome) \<Rightarrow> env" where
  "env_of t =
     \<lparr>transport = t, randbelow = (\<lambda>k n. 0), int_max_str_digits = 4300,
      sleep_max = (\<lambda>k. 9000000000)\<rparr>"

definition plain :: "int \<Rightarrow> outcome" where
  "plain c = Response \<lparr>status_code = c, retry_after = None, json_body = None\<rparr>"

definition like_request :: request where
  "like_request =
     mk_request bot_default ''PUT'' ''cast-likes'' ''token'' (JObj [(''castHash'', JStr ''0xabc'')])"

definition feed_entry :: "string \<Rightarrow> int \<Rightarrow> json" where
  "feed_entry h f =
     JObj [(''cast'', JObj [(''hash'', JStr h), (''author'', JObj [(''fid'', JInt f)]),
                            (''text'', JStr ''gm'')])]"

definition feed_response :: "json list \<Rightarrow> outcome" where
  "feed_response its =
     Response \<lparr>status_code = 200, retry_after = None,
               json_body = Some (JObj [(''result'', JObj [(''items'', JList its)])])\<rparr>"

text \<open>A transport that answers the feed request with a feed and anything else with \<open>out\<close>.\<close>

definition feed_and :: "json list \<Rightarrow> outcome \<Rightarrow> nat \<Rightarrow> request \<Rightarrow> outcome" where
  "feed_and its out k r =
     (if http_method r = ''POST'' \<and> json_payload r = feed_payload bot_default
      then feed_response its else out)"

definition feed_request :: request where
  "feed_request = mk_request bot_default ''POST'' ''feed-items'' ''token'' (feed_payload bot_default)"

definition cast_of :: "string \<Rightarrow> int \<Rightarrow> cast_info" where
  "cast_of h f = \<lparr>hash = JStr h, fid = JInt f, excerpt = ''gm...''\<rparr>"

definition short_feed :: "json list" where
  "short_feed = [JObj [], feed_entry ''0xa'' 1, feed_entry ''0xb'' 2]"

definition same_author_feed :: "json list" where
  "same_author_feed = [feed_entry ''0xa'' 7, feed_entry ''0xb'' 7, feed_entry ''0xc'' 7]"

definition same_author_casts :: "cast_info list" where
  "same_author_casts = [cast_of ''0xa'' 7, cast_of ''0xb'' 7, cast_of ''0xc'' 7]"

definition two_author_feed :: "json list" where
  "two_author_feed = [feed_entry ''0xa'' 7, feed_entry ''0xb'' 7, feed_entry ''0xc'' 8]"

definition two_author_casts :: "cast_info list" where
  "two_author_casts = [cast_of ''0xa'' 7, cast_of ''0xb'' 7, cast_of ''0xc'' 8]"

section \<open>Facts about the world\<close>

lemma calls_emit [simp]: "calls (emit e w) = calls w"
  by (simp add: emit_def)

lemma trace_emit [simp]: "trace (emit e w) = trace w @ [e]"
  by (simp add: emit_def)

lemma calls_send [simp]: "calls (send req out w) = Suc (calls w)"
  by (simp add: send_def)

lemma trace_send [simp]: "trace (send req out w) = trace w @ [Request req out]"
  by (simp add: send_def)

text \<open>The equations that evaluate a run on a concrete scenario.\<close>

lemmas run_defs =
  Let_def rate_limited_trace_def make_request_def mk_request_def make_request_loop.simps retry_after_seconds_def sleep_def
  can_sleep_def
  send_def emit_def get_feed_def feed_payload_def feed_cast_data_def feed_item_def
  response_bool_def status_is_def like_cast_def recast_def follow_user_def post_cast_def

lemmas scenario_defs =
  bot_default_def world_start_def env_of_def plain_def like_request_def feed_entry_def
  feed_response_def feed_and_def feed_request_def cast_of_def
  short_feed_def same_author_feed_def same_author_casts_def two_author_feed_def
  two_author_casts_def

section \<open>The retry loop, one attempt at a time\<close>

lemma sleep_ok:
  assumes "0 \<le> n" and "can_sleep E (calls w) n"
  shows "sleep E n w = (Inr (), emit (Sleep n) w)"
  using assms by (auto simp: sleep_def can_sleep_def)

lemma sleep_cases:
  obtains e where "sleep E n w = (Inl e, w)" | "sleep E n w = (Inr (), emit (Sleep n) w)"
proof (cases "sleep E n w = (Inr (), emit (Sleep n) w)")
  case True
  then show ?thesis by (rule that(2))
next
  case False
  then have "\<exists>e. sleep E n w = (Inl e, w)" by (simp add: sleep_def split: if_splits)
  then show ?thesis using that(1) by blast
qed

lemma can_sleep_small: "n \<le> 4294967296 \<Longrightarrow> can_sleep E k n"
  by (simp add: can_sleep_def)

lemma loop_error_slept:
  assumes "attempt < max_retries B - 1" and "transport E (calls w) req = RequestException"
    and "sleep E (2 ^ nat attempt) (send req RequestException w) = (Inr (), w2)"
  shows "make_request_loop E B req attempt w = make_request_loop E B req (attempt + 1) w2"
  using assms by (subst make_request_loop.simps) simp

lemma loop_error_sleep_raises:
  assumes "attempt < max_retries B - 1" and "transport E (calls w) req = RequestException"
    and "sleep E (2 ^ nat attempt) (send req RequestException w) = (Inl e, w2)"
  shows "make_request_loop E B req attempt w = (Inl e, w2)"
  using assms by (subst make_request_loop.simps) simp

lemma loop_429_slept:
  assumes "attempt < max_retries B" and "transport E (calls w) req = Response r"
    and "status_code r = 429" and "retry_after_seconds E r = Inr n"
    and "sleep E n (send req (Response r) w) = (Inr (), w2)"
  shows "make_request_loop E B req attempt w = make_request_loop E B req (attempt + 1) w2"
  using assms by (subst make_request_loop.simps) simp

lemma loop_429_sleep_raises:
  assumes "attempt < max_retries B" and "transport E (calls w) req = Response r"
    and "status_code r = 429" and "retry_after_seconds E r = Inr n"
    and "sleep E n (send req (Response r) w) = (Inl e, w2)"
  shows "make_request_loop E B req attempt w = (Inl e, w2)"
  using assms by (subst make_request_loop.simps) simp

lemma loop_step_error_retry:
  assumes "attempt < max_retries B - 1" and "transport E (calls w) req = RequestException"
    and "can_sleep E (Suc (calls w)) (2 ^ nat attempt)"
  shows "make_request_loop E B req attempt w =
         make_request_loop E B req (attempt + 1)
           (emit (Sleep (2 ^ nat attempt)) (send req RequestException w))"
proof -
  have "sleep E (2 ^ nat attempt) (send req RequestException w) =
        (Inr (), emit (Sleep (2 ^ nat attempt)) (send req RequestException w))"
    using assms(3) by (intro sleep_ok) simp_all
  with assms(1,2) show ?thesis by (rule loop_error_slept)
qed

lemma loop_step_error_final:
  assumes "attempt = max_retries B - 1" and "transport E (calls w) req = RequestException"
  shows "make_request_loop E B req attempt w = (Inr None, send req RequestException w)"
  using assms by (subst make_request_loop.simps) simp

lemma loop_step_429:
  assumes "attempt < max_retries B" and "transport E (calls w) req = Response r"
    and "status_code r = 429" and "retry_after_seconds E r = Inr n" and "0 \<le> n"
    and "can_sleep E (Suc (calls w)) n"
  shows "make_request_loop E B req attempt w =
         make_request_loop E B req (attempt + 1) (emit (Sleep n) (send req (Response r) w))"
proof -
  have "sleep E n (send req (Response r) w) =
        (Inr (), emit (Sleep n) (send req (Response r) w))"
    using assms(5,6) by (intro sleep_ok) simp_all
  with assms(1-4) show ?thesis by (rule loop_429_slept)
qed

lemma loop_exhausted:
  assumes "max_retries B \<le> attempt"
  shows "make_request_loop E B req attempt w = (Inr None, w)"
  using assms by (subst make_request_loop.simps) simp

lemma concat_map_upt_Suc:
  "concat (map g [0..<Suc m]) = g 0 @ concat (map (\<lambda>k. g (Suc k)) [0..<m])"
proof -
  have "[0..<Suc m] = 0 # map Suc [0..<m]"
    by (simp only: upt_conv_Cons zero_less_Suc map_Suc_upt)
  then show ?thesis by (simp only: list.map concat.simps map_map o_def)
qed

lemma rate_limited_trace_Suc:
  "rate_limited_trace E req d k0 (Suc m) =
   [Request req (transport E k0 req), Sleep (d 0)]
     @ rate_limited_trace E req (\<lambda>k. d (Suc k)) (Suc k0) m"
  unfolding rate_limited_trace_def by (subst concat_map_upt_Suc) simp

lemma loop_all_429:
  assumes "\<forall>k < m. \<exists>r. transport E (calls w + k) req = Response r \<and> status_code r = 429
              \<and> retry_after_seconds E r = Inr (d k) \<and> 0 \<le> d k
              \<and> can_sleep E (Suc (calls w + k)) (d k)"
    and "m = nat (max_retries B - attempt)"
  shows "make_request_loop E B req attempt w =
         (Inr None, \<lparr>calls = calls w + m,
                     trace = trace w @ rate_limited_trace E req d (calls w) m\<rparr>)"
  using assms
proof (induction m arbitrary: attempt w d)
  case 0
  then have "max_retries B \<le> attempt" by simp
  then show ?case by (simp add: loop_exhausted rate_limited_trace_def)
next
  case (Suc m)
  from Suc.prems(2) have lt: "attempt < max_retries B" by linarith
  from Suc.prems(1) have "\<exists>r. transport E (calls w + 0) req = Response r \<and> status_code r = 429
              \<and> retry_after_seconds E r = Inr (d 0) \<and> 0 \<le> d 0
              \<and> can_sleep E (Suc (calls w + 0)) (d 0)" by blast
  then obtain r where r: "transport E (calls w) req = Response r" "status_code r = 429"
    "retry_after_seconds E r = Inr (d 0)" "0 \<le> d 0" "can_sleep E (Suc (calls w)) (d 0)"
    by auto
  let ?w = "emit (Sleep (d 0)) (send req (Response r) w)"
  let ?d = "\<lambda>k. d (Suc k)"
  have step: "make_request_loop E B req attempt w = make_request_loop E B req (attempt + 1) ?w"
    using lt r by (rule loop_step_429)
  have cw: "calls ?w = Suc (calls w)" by simp
  have "\<forall>k < m. \<exists>r. transport E (calls ?w + k) req = Response r \<and> status_code r = 429
              \<and> retry_after_seconds E r = Inr (?d k) \<and> 0 \<le> ?d k
              \<and> can_sleep E (Suc (calls ?w + k)) (?d k)"
  proof (intro allI impI)
    fix k assume "k < m"
    then have "Suc k < Suc m" by simp
    with Suc.prems(1) have "\<exists>r. transport E (calls w + Suc k) req = Response r
              \<and> status_code r = 429
              \<and> retry_after_seconds E r = Inr (d (Suc k)) \<and> 0 \<le> d (Suc k)
              \<and> can_sleep E (Suc (calls w + Suc k)) (d (Suc k))" by blast
    then show "\<exists>r. transport E (calls ?w + k) req = Response r \<and> status_code r = 429
              \<and> retry_after_seconds E r = Inr (?d k) \<and> 0 \<le> ?d k
              \<and> can_sleep E (Suc (calls ?w + k)) (?d k)" by (simp add: cw)
  qed
  moreover have "m = nat (max_retries B - (attempt + 1))" using Suc.prems(2) by linarith
  ultimately have "make_request_loop E B req (attempt + 1) ?w =
         (Inr None, \<lparr>calls = calls ?w + m,
                     trace = trace ?w @ rate_limited_trace E req ?d (calls ?w) m\<rparr>)"
    by (rule Suc.IH)
  moreover have "rate_limited_trace E req d (calls w) (Suc m) =
        [Request req (Response r), Sleep (d 0)] @ rate_limited_trace E req ?d (calls ?w) m"
    by (simp add: rate_limited_trace_Suc r(1))
  ultimately show ?case using step by simp
qed

lemma loop_429_run:
  assumes "\<forall>k < m. \<exists>r. transport E (calls w + k) req = Response r \<and> status_code r = 429
              \<and> retry_after_seconds E r = Inr 0"
    and "attempt + int m \<le> max_retries B"
  shows "\<exists>w'. make_request_loop E B req attempt w = make_request_loop E B req (attempt + int m) w'
             \<and> calls w' = calls w + m"
  using assms
proof (induction m arbitrary: attempt w)
  case 0
  have "make_request_loop E B req attempt w = make_request_loop E B req (attempt + int 0) w
      \<and> calls w = calls w + 0" by simp
  then show ?case by (rule exI)
next
  case (Suc m)
  from Suc.prems(2) have lt: "attempt < max_retries B" by linarith
  from Suc.prems(1) have "\<exists>r. transport E (calls w + 0) req = Response r \<and> status_code r = 429
              \<and> retry_after_seconds E r = Inr 0" by blast
  then obtain r where r: "transport E (calls w) req = Response r" "status_code r = 429"
    "retry_after_seconds E r = Inr 0" by auto
  let ?w = "emit (Sleep 0) (send req (Response r) w)"
  have step: "make_request_loop E B req attempt w = make_request_loop E B req (attempt + 1) ?w"
    using lt r by (rule loop_step_429) (simp_all add: can_sleep_small)
  have cw: "calls ?w = Suc (calls w)" by simp
  have "\<forall>k < m. \<exists>r. transport E (calls ?w + k) req = Response r \<and> status_code r = 429
              \<and> retry_after_seconds E r = Inr 0"
  proof (intro allI impI)
    fix k assume "k < m"
    then have "Suc k < Suc m" by simp
    with Suc.prems(1) have "\<exists>r. transport E (calls w + Suc k) req = Response r
              \<and> status_code r = 429 \<and> retry_after_seconds E r = Inr 0" by blast
    then show "\<exists>r. transport E (calls ?w + k) req = Response r \<and> status_code r = 429
              \<and> retry_after_seconds E r = Inr 0" by (simp add: cw)
  qed
  moreover have "attempt + 1 + int m \<le> max_retries B" using Suc.prems(2) by simp
  ultimately obtain w' where
    "make_request_loop E B req (attempt + 1) ?w
       = make_request_loop E B req (attempt + 1 + int m) w'"
    "calls w' = calls ?w + m"
    using Suc.IH [of ?w "attempt + 1"] by blast
  moreover have "attempt + 1 + int m = attempt + int (Suc m)" by simp
  ultimately have "make_request_loop E B req attempt w
       = make_request_loop E B req (attempt + int (Suc m)) w'
     \<and> calls w' = calls w + Suc m" using step cw by simp
  then show ?case by (rule exI)
qed

lemma loop_error_overflow:
  assumes "34 \<le> attempt" and "attempt < max_retries B - 1"
    and "transport E (calls w) req = RequestException"
  shows "make_request_loop E B req attempt w = (Inl OverflowError, send req RequestException w)"
proof -
  from assms(1) have "34 \<le> nat attempt" by linarith
  then have "(2::int) ^ 34 \<le> 2 ^ nat attempt" by (intro power_increasing) simp_all
  then have "9223372036 < (2::int) ^ nat attempt" by simp
  then have "sleep E (2 ^ nat attempt) (send req RequestException w)
        = (Inl OverflowError, send req RequestException w)"
    by (simp add: sleep_def)
  with assms(2,3) show ?thesis by (rule loop_error_sleep_raises)
qed

section \<open>C1: rate-limit responses\<close>

text \<open>
  C1 as the specification states it: a run of 429 responses of any length never makes the
  call fail. With the default three attempts, three 429 responses in a row end the call
  with the absent response (\<open>None\<close>), after three requests and three waits of 60 seconds.
\<close>

theorem make_request_429_counterexample:
  "make_request (env_of (\<lambda>k r. plain 429)) bot_default ''PUT'' ''cast-likes'' ''token''
       (JObj [(''castHash'', JStr ''0xabc'')]) world_start =
     (Inr None,
      \<lparr>calls = 3,
       trace = [Request like_request (plain 429), Sleep 60,
                Request like_request (plain 429), Sleep 60,
                Request like_request (plain 429), Sleep 60]\<rparr>)"
  by (simp add: run_defs scenario_defs)

text \<open>
  C1, amended. Call a 429 response waitable when its Retry-After header is absent (the wait
  is then 60 seconds) or holds a non-negative integer that the platform can sleep (at most
  \<open>2^32\<close> seconds always, more than 9223372036 seconds never). A waitable 429 response
  at an attempt makes the client sleep for that duration and go on with the next attempt,
  so the response uses up one of the \<open>max_retries\<close> attempts; and when every one of the
  \<open>max_retries\<close> attempts is answered by a waitable 429 response, the call returns the
  absent response after exactly \<open>max_retries\<close> requests, each followed by its sleep.
  A 429 response whose header is not an integer makes \<^verbatim>\<open>int\<close> raise, which leaves
  \<^verbatim>\<open>make_request\<close> after the request, without a sleep.
\<close>

theorem make_request_rate_limited:
  assumes "0 \<le> attempt" and "attempt < max_retries B"
    and "transport E (calls w) req = Response r" and "status_code r = 429"
  shows "(retry_after r = None \<longrightarrow>
            make_request_loop E B req attempt w =
            make_request_loop E B req (attempt + 1)
              (emit (Sleep 60) (send req (Response r) w)))
       \<and> (\<forall>h n. retry_after r = Some h \<and> py_int (int_max_str_digits E) h = Inr n \<and> 0 \<le> n
                \<and> can_sleep E (Suc (calls w)) n \<longrightarrow>
            make_request_loop E B req attempt w =
            make_request_loop E B req (attempt + 1)
              (emit (Sleep n) (send req (Response r) w)))
       \<and> (\<forall>d. (\<forall>k < nat (max_retries B). \<exists>r'. transport E (calls w + k) req = Response r'
                \<and> status_code r' = 429 \<and> retry_after_seconds E r' = Inr (d k) \<and> 0 \<le> d k
                \<and> can_sleep E (Suc (calls w + k)) (d k)) \<longrightarrow>
            make_request_loop E B req 0 w =
            (Inr None,
             \<lparr>calls = calls w + nat (max_retries B),
              trace = trace w
                @ rate_limited_trace E req d (calls w) (nat (max_retries B))\<rparr>))
       \<and> (\<forall>h e. retry_after r = Some h \<and> py_int (int_max_str_digits E) h = Inl e \<longrightarrow>
            make_request_loop E B req attempt w = (Inl e, send req (Response r) w))"
proof (intro conjI allI impI)
  fix h e
  assume "retry_after r = Some h \<and> py_int (int_max_str_digits E) h = Inl e"
  then have "retry_after_seconds E r = Inl e" by (simp add: retry_after_seconds_def)
  with assms(2-4) show "make_request_loop E B req attempt w = (Inl e, send req (Response r) w)"
    by (subst make_request_loop.simps) simp
next
  assume "retry_after r = None"
  then have "retry_after_seconds E r = Inr 60" by (simp add: retry_after_seconds_def)
  moreover have "can_sleep E (Suc (calls w)) 60" by (simp add: can_sleep_def)
  ultimately show "make_request_loop E B req attempt w =
        make_request_loop E B req (attempt + 1) (emit (Sleep 60) (send req (Response r) w))"
    using loop_step_429 [OF assms(2) assms(3) assms(4), of 60] by simp
next
  fix h n
  assume h: "retry_after r = Some h \<and> py_int (int_max_str_digits E) h = Inr n \<and> 0 \<le> n
              \<and> can_sleep E (Suc (calls w)) n"
  then have "retry_after_seconds E r = Inr n" by (simp add: retry_after_seconds_def)
  from loop_step_429 [OF assms(2) assms(3) assms(4) this] h
  show "make_request_loop E B req attempt w =
        make_request_loop E B req (attempt + 1) (emit (Sleep n) (send req (Response r) w))"
    by simp
next
  fix d
  assume "\<forall>k < nat (max_retries B). \<exists>r'. transport E (calls w + k) req = Response r'
            \<and> status_code r' = 429 \<and> retry_after_seconds E r' = Inr (d k) \<and> 0 \<le> d k
            \<and> can_sleep E (Suc (calls w + k)) (d k)"
  then show "make_request_loop E B req 0 w =
        (Inr None,
         \<lparr>calls = calls w + nat (max_retries B),
          trace = trace w @ rate_limited_trace E req d (calls w) (nat (max_retries B))\<rparr>)"
    by (rule loop_all_429) simp
qed

theorem make_request_rate_limited_witness:
  "make_request_loop
     (env_of (\<lambda>k r. Response \<lparr>status_code = 429, retry_after = Some ''5'', json_body = None\<rparr>))
     bot_default like_request 0 world_start =
   (Inr None,
    \<lparr>calls = 3,
     trace =
       [Request like_request
          (Response \<lparr>status_code = 429, retry_after = Some ''5'', json_body = None\<rparr>),
        Sleep 5,
        Request like_request
          (Response \<lparr>status_code = 429, retry_after = Some ''5'', json_body = None\<rparr>),
        Sleep 5,
        Request like_request
          (Response \<lparr>status_code = 429, retry_after = Some ''5'', json_body = None\<rparr>),
        Sleep 5]\<rparr>)"
proof -
  let ?r = "\<lparr>status_code = 429, retry_after = Some ''5'', json_body = None\<rparr>"
  let ?E = "env_of (\<lambda>k r. Response ?r)"
  have p5: "py_int 4300 ''5'' = Inr 5"
    by (simp add: py_int_def py_strip_def py_isspace_def is_digit_def digits_value_def)
  have a: "(0::int) \<le> 0" and b: "0 < max_retries bot_default"
    and c: "transport ?E (calls world_start) like_request = Response ?r"
    and d: "status_code ?r = 429"
    by (simp_all add: bot_default_def env_of_def)
  have "make_request_loop ?E bot_default like_request 0 world_start =
        (Inr None,
         \<lparr>calls = calls world_start + nat (max_retries bot_default),
          trace = trace world_start
            @ rate_limited_trace ?E like_request (\<lambda>k. 5) (calls world_start)
                (nat (max_retries bot_default))\<rparr>)"
    by (rule make_request_rate_limited [OF a b c d, THEN conjunct2, THEN conjunct2,
          THEN conjunct1, THEN spec, THEN mp])
      (simp add: p5 env_of_def retry_after_seconds_def can_sleep_def)
  then show ?thesis
    by (simp add: world_start_def bot_default_def rate_limited_trace_def env_of_def
        numeral_3_eq_3)
qed

section \<open>C9: transport failures\<close>

text \<open>
  C9 as the specification states it: a transport failure at any attempt that is not the
  last is followed by a sleep of \<open>2 ^ attempt\<close> seconds and a retry. With 36 attempts,
  34 responses of status 429 with \<^verbatim>\<open>Retry-After: 0\<close> bring the loop to attempt 34
  without a wait; the transport failure of the 35th request is then followed by
  \<^verbatim>\<open>time.sleep(2 ** 34)\<close>, which raises \<^verbatim>\<open>OverflowError\<close> out of \<^verbatim>\<open>make_request\<close>:
  no sleep, no retry, no result.
\<close>

theorem make_request_transport_failure_counterexample:
  "fst (make_request
          (env_of (\<lambda>k r. if k < 34
                          then Response \<lparr>status_code = 429, retry_after = Some ''0'',
                                         json_body = None\<rparr>
                          else RequestException))
          (bot_default\<lparr>max_retries := 36\<rparr>) ''PUT'' ''cast-likes'' ''token''
          (JObj [(''castHash'', JStr ''0xabc'')]) world_start) = Inl OverflowError
   \<and> calls (snd (make_request
          (env_of (\<lambda>k r. if k < 34
                          then Response \<lparr>status_code = 429, retry_after = Some ''0'',
                                         json_body = None\<rparr>
                          else RequestException))
          (bot_default\<lparr>max_retries := 36\<rparr>) ''PUT'' ''cast-likes'' ''token''
          (JObj [(''castHash'', JStr ''0xabc'')]) world_start)) = 35"
proof -
  let ?E = "env_of (\<lambda>k r. if k < 34
                          then Response \<lparr>status_code = 429, retry_after = Some ''0'',
                                         json_body = None\<rparr>
                          else RequestException)"
  let ?B = "bot_default\<lparr>max_retries := 36\<rparr>"
  let ?req = "mk_request ?B ''PUT'' ''cast-likes'' ''token'' (JObj [(''castHash'', JStr ''0xabc'')])"
  have p0: "py_int 4300 ''0'' = Inr 0"
    by (simp add: py_int_def py_strip_def py_isspace_def is_digit_def digits_value_def)
  have "\<exists>w'. make_request_loop ?E ?B ?req 0 world_start
              = make_request_loop ?E ?B ?req (0 + int 34) w'
            \<and> calls w' = calls world_start + 34"
    by (rule loop_429_run)
      (simp_all add: env_of_def world_start_def retry_after_seconds_def p0)
  then obtain w' where run: "make_request_loop ?E ?B ?req 0 world_start
              = make_request_loop ?E ?B ?req 34 w'" and c: "calls w' = 34"
    by (auto simp: world_start_def)
  have "make_request_loop ?E ?B ?req 34 w' = (Inl OverflowError, send ?req RequestException w')"
    by (rule loop_error_overflow) (simp_all add: c env_of_def)
  with run c show ?thesis by (simp add: make_request_def)
qed

text \<open>
  C9, amended: a transport failure (the \<^verbatim>\<open>RequestException\<close> of a connection error or
  a timeout) at an attempt that is not the last is followed by a sleep of \<open>2 ^ attempt\<close>
  seconds and the next attempt, as long as the platform can sleep that long, which it can
  at every attempt up to 32; from attempt 34 on \<^verbatim>\<open>time.sleep\<close> raises
  \<^verbatim>\<open>OverflowError\<close>, which leaves \<^verbatim>\<open>make_request\<close> after the failed request. At the
  last of the \<open>max_retries\<close> attempts the call returns the absent response and sends
  nothing more; with \<open>max_retries = 3\<close>, three transport failures in a row give exactly
  three requests, sleeps of 1 and 2 seconds between them, and the absent response.
\<close>

theorem make_request_transport_failure:
  assumes "0 \<le> attempt" and "transport E (calls w) req = RequestException"
  shows "(attempt < max_retries B - 1
            \<and> (attempt \<le> 32 \<or> can_sleep E (Suc (calls w)) (2 ^ nat attempt)) \<longrightarrow>
            make_request_loop E B req attempt w =
            make_request_loop E B req (attempt + 1)
              (emit (Sleep (2 ^ nat attempt)) (send req RequestException w)))
       \<and> (attempt = max_retries B - 1 \<longrightarrow>
            make_request_loop E B req attempt w = (Inr None, send req RequestException w))
       \<and> (attempt = 0 \<and> max_retries B = 3
            \<and> transport E (calls w + 1) req = RequestException
            \<and> transport E (calls w + 2) req = RequestException \<longrightarrow>
            make_request_loop E B req attempt w =
            (Inr None,
             \<lparr>calls = calls w + 3,
              trace = trace w @ [Request req RequestException, Sleep 1,
                                 Request req RequestException, Sleep 2,
                                 Request req RequestException]\<rparr>))
       \<and> (34 \<le> attempt \<and> attempt < max_retries B - 1 \<longrightarrow>
            make_request_loop E B req attempt w =
            (Inl OverflowError, send req RequestException w))"
proof (intro conjI impI)
  assume "34 \<le> attempt \<and> attempt < max_retries B - 1"
  then show "make_request_loop E B req attempt w =
      (Inl OverflowError, send req RequestException w)"
    using assms(2) by (intro loop_error_overflow) simp_all
next
  assume h: "attempt < max_retries B - 1
            \<and> (attempt \<le> 32 \<or> can_sleep E (Suc (calls w)) (2 ^ nat attempt))"
  have "can_sleep E (Suc (calls w)) (2 ^ nat attempt)"
  proof (cases "attempt \<le> 32")
    case True
    with assms(1) have "nat attempt \<le> 32" by simp
    then have "(2::int) ^ nat attempt \<le> 2 ^ 32" by (intro power_increasing) simp_all
    then show ?thesis by (intro can_sleep_small) simp
  next
    case False
    with h show ?thesis by simp
  qed
  with h assms(2) show "make_request_loop E B req attempt w =
      make_request_loop E B req (attempt + 1)
        (emit (Sleep (2 ^ nat attempt)) (send req RequestException w))"
    by (intro loop_step_error_retry) simp_all
next
  assume "attempt = max_retries B - 1"
  then show "make_request_loop E B req attempt w = (Inr None, send req RequestException w)"
    using assms(2) by (rule loop_step_error_final)
next
  assume h: "attempt = 0 \<and> max_retries B = 3
            \<and> transport E (calls w + 1) req = RequestException
            \<and> transport E (calls w + 2) req = RequestException"
  let ?w1 = "emit (Sleep 1) (send req RequestException w)"
  let ?w2 = "emit (Sleep 2) (send req RequestException ?w1)"
  have s0: "make_request_loop E B req 0 w = make_request_loop E B req 1 ?w1"
    using loop_step_error_retry [of 0 B E w req] h assms(2) by (simp add: can_sleep_small)
  have s1: "make_request_loop E B req 1 ?w1 = make_request_loop E B req 2 ?w2"
    using loop_step_error_retry [of 1 B E ?w1 req] h by (simp add: can_sleep_small)
  have s2: "make_request_loop E B req 2 ?w2 = (Inr None, send req RequestException ?w2)"
    using loop_step_error_final [of 2 B E ?w2 req] h by (simp add: numeral_2_eq_2)
  have "send req RequestException ?w2 =
        \<lparr>calls = calls w + 3,
         trace = trace w @ [Request req RequestException, Sleep 1,
                            Request req RequestException, Sleep 2,
                            Request req RequestException]\<rparr>"
    by (simp add: send_def emit_def)
  with s0 s1 s2 h show "make_request_loop E B req attempt w =
            (Inr None,
             \<lparr>calls = calls w + 3,
              trace = trace w @ [Request req RequestException, Sleep 1,
                                 Request req RequestException, Sleep 2,
                                 Request req RequestException]\<rparr>)"
    by simp
qed

theorem make_request_transport_failure_witness:
  "make_request_loop (env_of (\<lambda>k r. RequestException)) bot_default like_request 0 world_start =
     (Inr None,
      \<lparr>calls = 3,
       trace = [Request like_request RequestException, Sleep 1,
                Request like_request RequestException, Sleep 2,
                Request like_request RequestException]\<rparr>)"
proof -
  let ?E = "env_of (\<lambda>k r. RequestException)"
  have a: "(0::int) \<le> 0"
    and b: "transport ?E (calls world_start) like_request = RequestException"
    by (simp_all add: env_of_def)
  have c: "(0::int) = 0 \<and> max_retries bot_default = 3
        \<and> transport ?E (calls world_start + 1) like_request = RequestException
        \<and> transport ?E (calls world_start + 2) like_request = RequestException"
    by (simp add: env_of_def bot_default_def)
  from make_request_transport_failure [OF a b, of bot_default] c
  have "make_request_loop ?E bot_default like_request 0 world_start =
        (Inr None,
         \<lparr>calls = calls world_start + 3,
          trace = trace world_start @ [Request like_request RequestException, Sleep 1,
                                      Request like_request RequestException, Sleep 2,
                                      Request like_request RequestException]\<rparr>)"
    by blast
  then show ?thesis by (simp add: world_start_def)
qed

section \<open>C4: how the four actions read the response\<close>

lemma status_is_200:
  "status_is 200 resp = (case resp of None \<Rightarrow> False | Some r \<Rightarrow> status_code r = 200)"
  by (auto simp: status_is_def response_bool_def split: option.splits)

lemma status_is_201:
  "status_is 201 resp = (case resp of None \<Rightarrow> False | Some r \<Rightarrow> status_code r = 201)"
  by (auto simp: status_is_def response_bool_def split: option.splits)

text \<open>
  C4: whenever the request client returns (a response or the absent response \<open>None\<close>),
  \<^verbatim>\<open>like_cast\<close>, \<^verbatim>\<open>recast\<close> and \<^verbatim>\<open>follow_user\<close> return true exactly when there is a
  response of status 200, \<^verbatim>\<open>post_cast\<close> returns true exactly when there is a response of
  status 201 (so a post answered by 200 is false), and the absent response gives false from
  each of the four, as a returned value and not as an exception.
\<close>

theorem action_executor_status:
  "(make_request E B ''PUT'' ''cast-likes'' tok (JObj [(''castHash'', h)]) w = (Inr resp, w1) \<longrightarrow>
      like_cast E B tok h w =
        (Inr (case resp of None \<Rightarrow> False | Some r \<Rightarrow> status_code r = 200), w1))
   \<and> (make_request E B ''PUT'' ''recasts'' tok (JObj [(''castHash'', h)]) w = (Inr resp, w1) \<longrightarrow>
      recast E B tok h w =
        (Inr (case resp of None \<Rightarrow> False | Some r \<Rightarrow> status_code r = 200), w1))
   \<and> (make_request E B ''PUT'' ''follows'' tok (JObj [(''targetFid'', f)]) w = (Inr resp, w1) \<longrightarrow>
      follow_user E B tok f w =
        (Inr (case resp of None \<Rightarrow> False | Some r \<Rightarrow> status_code r = 200), w1))
   \<and> (make_request E B ''POST'' ''casts'' tok (JObj [(''text'', JStr txt), (''embeds'', JList [])]) w
        = (Inr resp, w1) \<longrightarrow>
      post_cast E B tok txt w =
        (Inr (case resp of None \<Rightarrow> False | Some r \<Rightarrow> status_code r = 201), w1))"
  by (simp add: like_cast_def recast_def follow_user_def post_cast_def status_is_200
      status_is_201)

theorem action_executor_status_witness:
  "fst (like_cast (env_of (\<lambda>k r. plain 200)) bot_default ''token'' (JStr ''0xabc'') world_start)
     = Inr True
   \<and> fst (post_cast (env_of (\<lambda>k r. plain 200)) bot_default ''token'' ''gm'' world_start)
     = Inr False
   \<and> fst (follow_user (env_of (\<lambda>k r. RequestException)) bot_default ''token'' (JInt 7)
        world_start) = Inr False"
proof -
  let ?E = "env_of (\<lambda>k r. plain 200)"
  let ?D = "env_of (\<lambda>k r. RequestException)"
  let ?r = "\<lparr>status_code = 200, retry_after = None, json_body = None\<rparr>"
  obtain w1 where a: "make_request ?E bot_default ''PUT'' ''cast-likes'' ''token''
             (JObj [(''castHash'', JStr ''0xabc'')]) world_start = (Inr (Some ?r), w1)"
    by (simp add: run_defs scenario_defs)
  obtain w2 where b: "make_request ?E bot_default ''POST'' ''casts'' ''token''
             (JObj [(''text'', JStr ''gm''), (''embeds'', JList [])]) world_start
           = (Inr (Some ?r), w2)"
    by (simp add: run_defs scenario_defs)
  obtain w3 where c: "make_request ?D bot_default ''PUT'' ''follows'' ''token''
             (JObj [(''targetFid'', JInt 7)]) world_start = (Inr None, w3)"
    by (simp add: run_defs scenario_defs)
  from action_executor_status [of ?E bot_default "''token''" "JStr ''0xabc''" world_start
      "Some ?r" w1] a
  have "fst (like_cast ?E bot_default ''token'' (JStr ''0xabc'') world_start) = Inr True"
    by simp
  moreover
  from action_executor_status [of ?E bot_default "''token''" _ world_start "Some ?r" w2 _
      "''gm''"] b
  have "fst (post_cast ?E bot_default ''token'' ''gm'' world_start) = Inr False"
    by simp
  moreover
  from action_executor_status [of ?D bot_default "''token''" _ world_start None w3 "JInt 7"] c
  have "fst (follow_user ?D bot_default ''token'' (JInt 7) world_start) = Inr False"
    by simp
  ultimately show ?thesis by blast
qed

section \<open>C8: what the feed fetcher returns\<close>

text \<open>
  C8 asks for a failure result when a response of status 200 carries no parseable body. On
  that input \<^verbatim>\<open>response.json()\<close> raises inside \<^verbatim>\<open>get_feed\<close>, where nothing catches
  it: the exception leaves the method instead of the result \<^verbatim>\<open>(False, [])\<close>.
\<close>

theorem get_feed_unparseable_body:
  "get_feed (env_of (\<lambda>k r. plain 200)) bot_default ''token'' 100 world_start =
     (Inl JSONDecodeError, \<lparr>calls = 1, trace = [Request feed_request (plain 200)]\<rparr>)"
  by (simp add: run_defs scenario_defs)

section \<open>The usable items of a feed\<close>

lemma map_of_in_keys: "map_of kvs k = Some v \<Longrightarrow> k \<in> fst ` set kvs"
  by (metis domI dom_map_of_conv_image_fst)

lemma feed_item_None:
  assumes "feed_item item = Inr None"
  shows "\<not> usable item"
proof (cases item)
  case (JObj kvs)
  show ?thesis
  proof (cases "map_of kvs ''cast''")
    case None
    then show ?thesis using JObj by (simp add: usable_def item_hash_def json_field_def)
  next
    case (Some c)
    then have inkeys: "''cast'' \<in> fst ` set kvs" by (rule map_of_in_keys)
    show ?thesis
    proof (cases c)
      case (JObj ckvs)
      show ?thesis
      proof (cases "map_of ckvs ''author''")
        case None
        then show ?thesis using \<open>item = JObj kvs\<close> Some JObj
          by (simp add: usable_def item_hash_def item_fid_def json_field_def)
      next
        case (Some a)
        note a = this
        show ?thesis
        proof (cases a)
          case (JObj akvs)
          then show ?thesis
            using assms \<open>item = JObj kvs\<close> \<open>map_of kvs ''cast'' = Some c\<close> \<open>c = JObj ckvs\<close> a inkeys
            by (auto simp: feed_item_def usable_def item_hash_def item_fid_def json_field_def
                split: option.splits if_splits json.splits sum.splits)
        qed (use assms \<open>item = JObj kvs\<close> \<open>map_of kvs ''cast'' = Some c\<close> \<open>c = JObj ckvs\<close> a inkeys in
              \<open>auto simp: feed_item_def\<close>)
      qed
    qed (use assms \<open>item = JObj kvs\<close> Some inkeys in \<open>auto simp: feed_item_def\<close>)
  qed
qed (simp_all add: usable_def item_hash_def json_field_def)

lemma feed_item_Some:
  assumes "feed_item item = Inr (Some c)"
  shows "usable item \<and> cast_key c = item_key item"
proof -
  from assms obtain kvs where item: "item = JObj kvs"
    by (cases item) (auto simp: feed_item_def split: if_splits bool.splits)
  from assms item have inkeys: "''cast'' \<in> fst ` set kvs"
    by (auto simp: feed_item_def split: if_splits bool.splits)
  then obtain cv where cv: "map_of kvs ''cast'' = Some cv"
    by (metis domD dom_map_of_conv_image_fst)
  from assms item inkeys cv obtain ckvs where c: "cv = JObj ckvs"
    by (cases cv) (auto simp: feed_item_def)
  show ?thesis
  proof (cases "map_of ckvs ''author''")
    case None
    then show ?thesis using assms item inkeys cv c
      by (auto simp: feed_item_def split: if_splits)
  next
    case (Some a)
    then obtain akvs where a: "a = JObj akvs"
      using assms item inkeys cv c by (cases a) (auto simp: feed_item_def)
    show ?thesis using assms item inkeys cv c Some a
      by (auto simp: feed_item_def usable_def item_hash_def item_fid_def json_field_def
          cast_key_def item_key_def
          split: option.splits if_splits json.splits sum.splits)
  qed
qed

lemma feed_items_keys:
  "feed_items its acc = Inr cs \<Longrightarrow>
   map cast_key cs = map cast_key acc @ map item_key (filter usable its)"
proof (induction its arbitrary: acc)
  case Nil
  then show ?case by simp
next
  case (Cons item its)
  show ?case
  proof (cases "feed_item item")
    case (Inl e)
    with Cons.prems show ?thesis by simp
  next
    case (Inr r)
    show ?thesis
    proof (cases r)
      case None
      with Inr Cons.prems have "feed_items its acc = Inr cs" by simp
      from Cons.IH [OF this] feed_item_None Inr None show ?thesis by simp
    next
      case (Some c)
      with Inr Cons.prems have "feed_items its (acc @ [c]) = Inr cs" by simp
      from Cons.IH [OF this] feed_item_Some [of item c] Inr Some show ?thesis by simp
    qed
  qed
qed

section \<open>C10: the limit is applied before the filter\<close>

lemma py_take_nonneg: "0 \<le> n \<Longrightarrow> py_take n xs = take (nat n) xs"
  by (simp add: py_take_def)

lemma get_feed_200:
  assumes "make_request E B ''POST'' ''feed-items'' tok (feed_payload B) w = (Inr (Some r), w1)"
    and "status_code r = 200" and "json_body r = Some data"
  shows "get_feed E B tok limit w = (feed_cast_data data limit, w1)"
  using assms by (simp add: get_feed_def response_bool_def)

lemma feed_cast_data_list:
  assumes "json_field ''items'' (json_field ''result'' data) = JList its"
  shows "feed_cast_data data limit =
         (case feed_items (py_take limit its) [] of
            Inl e \<Rightarrow> Inl e | Inr cs \<Rightarrow> Inr (True, cs))"
proof -
  from assms obtain kvs where data: "data = JObj kvs"
    by (cases data) (simp_all add: json_field_def)
  from assms data obtain res where res: "map_of kvs ''result'' = Some res"
    by (cases "map_of kvs ''result''") (simp_all add: json_field_def)
  from assms data res obtain rkvs where rkvs: "res = JObj rkvs"
    by (cases res) (simp_all add: json_field_def)
  from assms data res rkvs have items: "map_of rkvs ''items'' = Some (JList its)"
    by (cases "map_of rkvs ''items''") (simp_all add: json_field_def)
  have k1: "''result'' \<in> fst ` set kvs" using res by (rule map_of_in_keys)
  have k2: "''items'' \<in> fst ` set rkvs" using items by (rule map_of_in_keys)
  show ?thesis using data res rkvs items k1 k2
    by (simp add: feed_cast_data_def split: sum.splits)
qed

text \<open>
  C10: when the feed request is answered by status 200 with a body whose
  \<^verbatim>\<open>result.items\<close> is a list, and \<^verbatim>\<open>get_feed\<close> returns, it returns success with
  exactly the usable items among the first \<open>limit\<close> raw items, in feed order (compared by
  post id and author id): the list is cut to \<open>limit\<close> before the filter runs. So the
  result has at most \<open>limit\<close> entries, and it can have fewer although usable items lie
  beyond the cut: with \<open>limit = 1\<close> and a feed of one unusable item followed by two
  usable ones the result is empty.
\<close>

theorem get_feed_truncates_then_filters:
  assumes "make_request E B ''POST'' ''feed-items'' tok (feed_payload B) w = (Inr (Some r), w1)"
    and "status_code r = 200" and "json_body r = Some data"
    and "json_field ''items'' (json_field ''result'' data) = JList its"
    and "0 \<le> limit"
    and "get_feed E B tok limit w = (Inr (ok, cs), w2)"
  shows "ok \<and> w2 = w1
       \<and> map cast_key cs = map item_key (filter usable (take (nat limit) its))
       \<and> int (length cs) \<le> limit
       \<and> fst (get_feed (env_of (\<lambda>k r. feed_response short_feed)) bot_default ''token'' 1
                world_start) = Inr (True, [])
       \<and> length (filter usable (drop 1 short_feed)) = 2"
proof -
  have "get_feed E B tok limit w = (feed_cast_data data limit, w1)"
    using assms(1-3) by (rule get_feed_200)
  with assms(6) have fc: "feed_cast_data data limit = Inr (ok, cs)" and w: "w2 = w1"
    by simp_all
  from fc feed_cast_data_list [OF assms(4), of limit] py_take_nonneg [OF assms(5), of its]
  have ok: "ok" and fi: "feed_items (take (nat limit) its) [] = Inr cs"
    by (auto split: sum.splits)
  from feed_items_keys [OF fi]
  have keys: "map cast_key cs = map item_key (filter usable (take (nat limit) its))" by simp
  then have "length cs = length (filter usable (take (nat limit) its))"
    by (metis length_map)
  also have "\<dots> \<le> length (take (nat limit) its)" by (rule length_filter_le)
  also have "\<dots> \<le> nat limit" by simp
  finally have len: "int (length cs) \<le> limit" using assms(5) by linarith
  have ex1: "fst (get_feed (env_of (\<lambda>k r. feed_response short_feed)) bot_default ''token'' 1
                world_start) = Inr (True, [])"
    by (simp add: run_defs scenario_defs py_take_def)
  have ex2: "length (filter usable (drop 1 short_feed)) = 2"
    by (simp add: scenario_defs usable_def item_hash_def item_fid_def json_field_def)
  from ok w keys len ex1 ex2 show ?thesis by blast
qed

theorem get_feed_truncates_then_filters_witness:
  "map cast_key (snd (projr (fst (get_feed
       (env_of (\<lambda>k r. feed_response [feed_entry ''0xa'' 1, JObj [], feed_entry ''0xb'' 2]))
       bot_default ''token'' 2 world_start)))) = [(JStr ''0xa'', JInt 1)]"
proof -
  let ?its = "[feed_entry ''0xa'' 1, JObj [], feed_entry ''0xb'' 2]"
  let ?E = "env_of (\<lambda>k r. feed_response ?its)"
  let ?r = "\<lparr>status_code = 200, retry_after = None,
             json_body = Some (JObj [(''result'', JObj [(''items'', JList ?its)])])\<rparr>"
  let ?w1 = "\<lparr>calls = 1, trace = [Request feed_request (feed_response ?its)]\<rparr>"
  have a: "make_request ?E bot_default ''POST'' ''feed-items'' ''token'' (feed_payload bot_default)
             world_start = (Inr (Some ?r), ?w1)"
    by (simp add: run_defs scenario_defs)
  have b: "status_code ?r = 200"
    and c: "json_body ?r = Some (JObj [(''result'', JObj [(''items'', JList ?its)])])"
    and d: "json_field ''items'' (json_field ''result''
              (JObj [(''result'', JObj [(''items'', JList ?its)])])) = JList ?its"
    and e: "(0::int) \<le> 2"
    by (simp_all add: json_field_def)
  have f: "get_feed ?E bot_default ''token'' 2 world_start =
           (Inr (True, [cast_of ''0xa'' 1]), ?w1)"
    by (simp add: run_defs scenario_defs py_take_def)
  from get_feed_truncates_then_filters [OF a b c d e f]
  have "map cast_key [cast_of ''0xa'' 1] = map item_key (filter usable (take (nat 2) ?its))"
    by blast
  moreover have "map item_key (filter usable (take (nat 2) ?its)) = [(JStr ''0xa'', JInt 1)]"
    by (simp add: scenario_defs usable_def item_hash_def item_fid_def json_field_def
        item_key_def)
  ultimately show ?thesis using f by simp
qed

section \<open>What the methods add to the trace\<close>

lemma requests_append [simp]: "requests (a @ b) = requests a @ requests b"
  by (induction a rule: requests.induct) simp_all

lemma focus_counts_append [simp]: "focus_counts (a @ b) = focus_counts a @ focus_counts b"
  by (induction a rule: focus_counts.induct) simp_all

lemma follow_targets_append [simp]:
  "follow_targets B (a @ b) = follow_targets B a \<union> follow_targets B b"
  by (auto simp: follow_targets_def)

lemma follow_successes_append [simp]:
  "follow_successes B (a @ b) = follow_successes B a @ follow_successes B b"
  by (simp add: follow_successes_def)

lemma follow_targets_Nil [simp]: "follow_targets B [] = {}"
  by (simp add: follow_targets_def)

lemma follow_successes_Nil [simp]: "follow_successes B [] = []"
  by (simp add: follow_successes_def)

lemma new_events_append: "trace w' = trace w @ evs \<Longrightarrow> new_events w w' = evs"
  by (simp add: new_events_def)

lemma waits_Nil [simp]: "waits [] = 0"
  by (simp add: waits_def)

lemma waits_Cons [simp]: "waits (e # evs) = (if is_wait e then Suc (waits evs) else waits evs)"
  by (simp add: waits_def)

lemma waits_append [simp]: "waits (a @ b) = waits a + waits b"
  by (simp add: waits_def)

lemma client_events_Nil: "client_events req (Inr None) []"
  by (simp add: client_events_def)

lemma client_events_step:
  assumes "client_events req res evs" and "\<not> answered_200 out"
  shows "client_events req res (Request req out # Sleep n # evs)"
  using assms by (simp add: client_events_def)

lemma make_request_loop_events:
  "make_request_loop E B req attempt w = (res, w') \<Longrightarrow>
   \<exists>evs. trace w' = trace w @ evs \<and> client_events req res evs
         \<and> (attempt < max_retries B \<longrightarrow> requests evs \<noteq> [])"
proof (induction E B req attempt w arbitrary: res w' rule: make_request_loop.induct)
  case (1 E B req attempt w)
  show ?case
  proof (cases "attempt < max_retries B")
    case False
    with "1.prems" have "res = Inr None" "w' = w"
      by (simp_all add: make_request_loop.simps)
    then show ?thesis using False client_events_Nil by auto
  next
    case lt: True
    let ?out = "transport E (calls w) req"
    let ?w1 = "send req ?out w"
    show ?thesis
    proof (cases ?out)
      case RequestException
      show ?thesis
      proof (cases "attempt < max_retries B - 1")
        case True
        let ?w2 = "emit (Sleep (2 ^ nat attempt)) ?w1"
        show ?thesis
        proof (rule sleep_cases [of E "2 ^ nat attempt" ?w1])
          fix e assume sl: "sleep E (2 ^ nat attempt) ?w1 = (Inl e, ?w1)"
          from loop_error_sleep_raises [OF True _ sl [unfolded RequestException]] RequestException
            "1.prems"
          have "res = Inl e" "w' = ?w1" by simp_all
          moreover have "client_events req (Inl e) [Request req ?out]"
            using RequestException by (simp add: client_events_def)
          ultimately show ?thesis by (metis list.distinct(1) requests.simps(2) trace_send)
        next
          assume sl: "sleep E (2 ^ nat attempt) ?w1 = (Inr (), ?w2)"
          from loop_error_slept [OF True _ sl [unfolded RequestException]] RequestException
            "1.prems"
          have rec: "make_request_loop E B req (attempt + 1) ?w2 = (res, w')" by simp
          from "1.IH"(2) [OF lt refl refl RequestException True sl [symmetric] refl rec]
          obtain evs where evs: "trace w' = trace ?w2 @ evs" "client_events req res evs"
            by blast
          have "trace w' = trace w @ (Request req ?out # Sleep (2 ^ nat attempt) # evs)"
            using evs(1) by simp
          moreover
          have "client_events req res (Request req ?out # Sleep (2 ^ nat attempt) # evs)"
            using evs(2) RequestException by (simp add: client_events_step)
          ultimately show ?thesis by (metis list.distinct(1) requests.simps(2))
        qed
      next
        case False
        with lt have "attempt = max_retries B - 1" by simp
        from loop_step_error_final [OF this RequestException] "1.prems"
        have "res = Inr None" "w' = ?w1" using RequestException by simp_all
        moreover have "client_events req (Inr None) [Request req ?out]"
          using RequestException by (simp add: client_events_def)
        ultimately show ?thesis by (metis list.distinct(1) requests.simps(2) trace_send)
      qed
    next
      case (Response r)
      show ?thesis
      proof (cases "status_code r = 429")
        case False
        with "1.prems" lt Response have "res = Inr (Some r)" "w' = ?w1"
          by (simp_all add: make_request_loop.simps Let_def)
        moreover have "client_events req (Inr (Some r)) [Request req ?out]"
          using Response False by (simp add: client_events_def)
        ultimately show ?thesis by (metis list.distinct(1) requests.simps(2) trace_send)
      next
        case True
        show ?thesis
        proof (cases "retry_after_seconds E r")
          case (Inl e)
          with "1.prems" lt Response True have "res = Inl e" "w' = ?w1"
            by (simp_all add: make_request_loop.simps Let_def)
          moreover have "client_events req (Inl e) [Request req ?out]"
            using Response True by (simp add: client_events_def)
          ultimately show ?thesis by (metis list.distinct(1) requests.simps(2) trace_send)
        next
          case (Inr n)
          let ?w2 = "emit (Sleep n) ?w1"
          show ?thesis
          proof (rule sleep_cases [of E n ?w1])
            fix e assume sl: "sleep E n ?w1 = (Inl e, ?w1)"
            from loop_429_sleep_raises [OF lt _ True Inr sl [unfolded Response]] Response
              "1.prems"
            have "res = Inl e" "w' = ?w1" by simp_all
            moreover have "client_events req (Inl e) [Request req ?out]"
              using Response True by (simp add: client_events_def)
            ultimately show ?thesis by (metis list.distinct(1) requests.simps(2) trace_send)
          next
            assume sl: "sleep E n ?w1 = (Inr (), ?w2)"
            from loop_429_slept [OF lt _ True Inr sl [unfolded Response]] Response "1.prems"
            have rec: "make_request_loop E B req (attempt + 1) ?w2 = (res, w')" by simp
            from "1.IH"(1) [OF lt refl refl Response True Inr sl [symmetric] refl rec]
            obtain evs where evs: "trace w' = trace ?w2 @ evs" "client_events req res evs"
              by blast
            have "trace w' = trace w @ (Request req ?out # Sleep n # evs)"
              using evs(1) by simp
            moreover have "client_events req res (Request req ?out # Sleep n # evs)"
              using evs(2) Response True by (simp add: client_events_step)
            ultimately show ?thesis by (metis list.distinct(1) requests.simps(2))
          qed
        qed
      qed
    qed
  qed
qed

lemma make_request_events:
  assumes "make_request E B meth endpoint tok payload w = (res, w')"
  shows "\<exists>evs. trace w' = trace w @ evs
           \<and> client_events (mk_request B meth endpoint tok payload) res evs
           \<and> (0 < max_retries B \<longrightarrow> requests evs \<noteq> [])"
  using make_request_loop_events [OF assms [unfolded make_request_def]] by simp

lemma client_events_follow:
  assumes "client_events (mk_request B meth ''follows'' tok (JObj [(''targetFid'', v)])) res evs"
  shows "follow_targets B evs \<subseteq> {v}"
    and "requests evs \<noteq> [] \<Longrightarrow> follow_targets B evs = {v}"
    and "length (follow_successes B evs) =
           (case res of Inr (Some r) \<Rightarrow> if status_code r = 200 then 1 else 0 | _ \<Rightarrow> 0)"
proof -
  let ?req = "mk_request B meth ''follows'' tok (JObj [(''targetFid'', v)])"
  from assms have sub: "fst ` set (requests evs) \<subseteq> {?req}"
    and cnt: "length (filter (\<lambda>ro. answered_200 (snd ro)) (requests evs)) =
          (case res of Inr (Some r) \<Rightarrow> if status_code r = 200 then 1 else 0 | _ \<Rightarrow> 0)"
    by (simp_all add: client_events_def)
  have all: "\<And>ro. ro \<in> set (requests evs) \<Longrightarrow> fst ro = ?req" using sub by auto
  have fr: "\<And>u. follow_request B u ?req = (u = v)"
    by (auto simp: follow_request_def mk_request_def)
  show "follow_targets B evs \<subseteq> {v}"
    using all fr by (auto simp: follow_targets_def)
  show "follow_targets B evs = {v}" if "requests evs \<noteq> []"
  proof -
    from that obtain ro where ro: "ro \<in> set (requests evs)"
      by (cases "requests evs") (simp, metis list.set_intros(1))
    then have "follow_request B v (fst ro)" using all fr by simp
    with ro have "v \<in> follow_targets B evs" unfolding follow_targets_def by blast
    moreover have "follow_targets B evs \<subseteq> {v}"
      using all fr by (auto simp: follow_targets_def)
    ultimately show ?thesis by blast
  qed
  have "follow_successes B evs = filter (\<lambda>ro. answered_200 (snd ro)) (requests evs)"
    unfolding follow_successes_def
    by (rule filter_cong) (auto simp: all mk_request_def)
  with cnt show "length (follow_successes B evs) =
           (case res of Inr (Some r) \<Rightarrow> if status_code r = 200 then 1 else 0 | _ \<Rightarrow> 0)"
    by simp
qed

lemma client_events_other:
  assumes "client_events req res evs" and "url req \<noteq> api_url B @ ''/follows''"
  shows "follow_targets B evs = {}" and "follow_successes B evs = []"
proof -
  from assms(1) have sub: "fst ` set (requests evs) \<subseteq> {req}"
    by (simp add: client_events_def)
  then have all: "\<And>ro. ro \<in> set (requests evs) \<Longrightarrow> fst ro = req" by auto
  show "follow_targets B evs = {}"
    using all assms(2) by (auto simp: follow_targets_def follow_request_def)
  show "follow_successes B evs = []"
    using all assms(2) by (auto simp: follow_successes_def filter_empty_conv)
qed

lemma quiet_Nil [simp]: "quiet B []"
  by (simp add: quiet_def)

lemma quiet_append [simp]: "quiet B (a @ b) = (quiet B a \<and> quiet B b)"
  by (auto simp: quiet_def)

lemma quiet_wait [simp]: "quiet B [action_wait B a]" "quiet B [Sleep_uniform x y]"
  by (simp_all add: quiet_def action_wait_def follow_targets_def follow_successes_def)

lemma quiet_client:
  assumes "client_events req res evs" and "url req \<noteq> api_url B @ ''/follows''"
  shows "quiet B evs"
  using assms client_events_other [OF assms] by (simp add: quiet_def client_events_def)

lemma like_cast_events:
  assumes "like_cast E B tok h w = (res, w')"
  shows "\<exists>evs. trace w' = trace w @ evs \<and> quiet B evs"
proof -
  obtain r w1 where mr: "make_request E B ''PUT'' ''cast-likes'' tok
      (JObj [(''castHash'', h)]) w = (r, w1)" by (cases "make_request E B ''PUT'' ''cast-likes'' tok
      (JObj [(''castHash'', h)]) w")
  with assms have "w' = w1" by (auto simp: like_cast_def split: sum.splits)
  moreover from make_request_events [OF mr] obtain evs where
    "trace w1 = trace w @ evs"
    "client_events (mk_request B ''PUT'' ''cast-likes'' tok (JObj [(''castHash'', h)])) r evs"
    by blast
  moreover have "url (mk_request B ''PUT'' ''cast-likes'' tok (JObj [(''castHash'', h)]))
      \<noteq> api_url B @ ''/follows''" by (simp add: mk_request_def)
  ultimately show ?thesis using quiet_client by blast
qed

lemma recast_events:
  assumes "recast E B tok h w = (res, w')"
  shows "\<exists>evs. trace w' = trace w @ evs \<and> quiet B evs"
proof -
  obtain r w1 where mr: "make_request E B ''PUT'' ''recasts'' tok
      (JObj [(''castHash'', h)]) w = (r, w1)" by (cases "make_request E B ''PUT'' ''recasts'' tok
      (JObj [(''castHash'', h)]) w")
  with assms have "w' = w1" by (auto simp: recast_def split: sum.splits)
  moreover from make_request_events [OF mr] obtain evs where
    "trace w1 = trace w @ evs"
    "client_events (mk_request B ''PUT'' ''recasts'' tok (JObj [(''castHash'', h)])) r evs"
    by blast
  moreover have "url (mk_request B ''PUT'' ''recasts'' tok (JObj [(''castHash'', h)]))
      \<noteq> api_url B @ ''/follows''" by (simp add: mk_request_def)
  ultimately show ?thesis using quiet_client by blast
qed

lemma get_feed_events:
  assumes "get_feed E B tok limit w = (res, w')"
  shows "\<exists>evs. trace w' = trace w @ evs \<and> quiet B evs"
proof -
  obtain r w1 where mr: "make_request E B ''POST'' ''feed-items'' tok (feed_payload B) w = (r, w1)"
    by (cases "make_request E B ''POST'' ''feed-items'' tok (feed_payload B) w")
  with assms have "w' = w1"
    by (auto simp: get_feed_def split: sum.splits option.splits if_splits)
  moreover from make_request_events [OF mr] obtain evs where
    "trace w1 = trace w @ evs"
    "client_events (mk_request B ''POST'' ''feed-items'' tok (feed_payload B)) r evs"
    by blast
  moreover have "url (mk_request B ''POST'' ''feed-items'' tok (feed_payload B))
      \<noteq> api_url B @ ''/follows''" by (simp add: mk_request_def)
  ultimately show ?thesis using quiet_client by blast
qed

lemma follow_user_events:
  assumes "follow_user E B tok v w = (res, w')"
  shows "\<exists>evs. trace w' = trace w @ evs \<and> focus_counts evs = []
           \<and> follow_targets B evs \<subseteq> {v}
           \<and> (0 < max_retries B \<longrightarrow> follow_targets B evs = {v})
           \<and> length (follow_successes B evs) = (if res = Inr True then 1 else 0)"
proof -
  let ?req = "mk_request B ''PUT'' ''follows'' tok (JObj [(''targetFid'', v)])"
  obtain r w1 where mr: "make_request E B ''PUT'' ''follows'' tok
      (JObj [(''targetFid'', v)]) w = (r, w1)" by (cases "make_request E B ''PUT'' ''follows'' tok
      (JObj [(''targetFid'', v)]) w")
  with assms have w: "w' = w1" and res: "res = (case r of Inl e \<Rightarrow> Inl e | Inr resp \<Rightarrow> Inr (status_is 200 resp))"
    by (auto simp: follow_user_def split: sum.splits)
  from make_request_events [OF mr] obtain evs where evs:
    "trace w1 = trace w @ evs" "client_events ?req r evs"
    "0 < max_retries B \<longrightarrow> requests evs \<noteq> []"
    by blast
  have "(case r of Inr (Some x) \<Rightarrow> if status_code x = 200 then 1 else 0 | _ \<Rightarrow> 0)
          = (if res = Inr True then 1 else (0::nat))"
    using res by (auto simp: status_is_200 split: sum.splits option.splits)
  with client_events_follow [OF evs(2)] evs w show ?thesis
    by (auto simp: client_events_def)
qed

lemma py_eq_refl [simp]: "py_eq a a"
  by (cases a) (simp_all add: py_eq_def)

lemma py_set_add_distinct: "distinct F \<Longrightarrow> distinct (py_set_add v F)"
  by (auto simp: py_set_add_def)

lemma py_set_add_new:
  "py_set_contains F v = Inr False \<Longrightarrow> py_set_add v F = F @ [v]"
  by (auto simp: py_set_contains_def py_set_add_def split: if_splits)

lemma py_set_contains_False_notin:
  "py_set_contains F v = Inr False \<Longrightarrow> v \<notin> set F"
  by (auto simp: py_set_contains_def split: if_splits)

lemma py_eq_JInt: "py_eq (JInt i) (JInt j) = (i = j)"
  by (simp add: py_eq_def)

lemma py_set_contains_ints:
  assumes "\<forall>x \<in> set F. \<exists>i. x = JInt i"
  shows "py_set_contains F (JInt j) = Inr (JInt j \<in> set F)"
proof -
  have "(\<exists>x \<in> set F. py_eq x (JInt j)) = (JInt j \<in> set F)"
    using assms by (metis py_eq_JInt py_eq_refl)
  then show ?thesis by (simp add: py_set_contains_def)
qed

text \<open>What the dispatch of one target adds to the trace and to the followed-set.\<close>

lemma focus_dispatch_other:
  assumes "focus_dispatch E B tok a c F w = (res, w')" and "a \<noteq> ''follow''"
  shows "\<exists>evs. trace w' = trace w @ evs \<and> quiet B evs"
    and "\<And>s F'. res = Inr (Some (s, F')) \<Longrightarrow> F' = F"
    and "res \<noteq> Inr None"
proof -
  show "\<exists>evs. trace w' = trace w @ evs \<and> quiet B evs"
  proof (cases "a = ''like''")
    case True
    then obtain r where "like_cast E B tok (hash c) w = (r, w')"
      using assms by (cases "like_cast E B tok (hash c) w")
        (auto simp: focus_dispatch_def split: sum.splits)
    then show ?thesis by (rule like_cast_events)
  next
    case False
    show ?thesis
    proof (cases "a = ''recast''")
      case True
      then obtain r where "recast E B tok (hash c) w = (r, w')"
        using assms False by (cases "recast E B tok (hash c) w")
          (auto simp: focus_dispatch_def split: sum.splits)
      then show ?thesis by (rule recast_events)
    next
      case nr: False
      with False assms have "w' = w" by (simp add: focus_dispatch_def)
      then show ?thesis by simp
    qed
  qed
  show "\<And>s F'. res = Inr (Some (s, F')) \<Longrightarrow> F' = F"
    using assms by (auto simp: focus_dispatch_def split: if_splits sum.splits prod.splits)
  show "res \<noteq> Inr None"
    using assms by (auto simp: focus_dispatch_def split: if_splits sum.splits prod.splits)
qed

lemma focus_dispatch_follow_skip:
  assumes "focus_dispatch E B tok ''follow'' c F w = (Inr None, w')"
  shows "w' = w" and "py_set_contains F (fid c) = Inr True"
  using assms
  by (auto simp: focus_dispatch_def split: sum.splits bool.splits prod.splits)

lemma focus_dispatch_follow_call:
  assumes "focus_dispatch E B tok ''follow'' c F w = (Inr (Some (s, F')), w')"
  shows "py_set_contains F (fid c) = Inr False"
    and "follow_user E B tok (fid c) w = (Inr s, w')"
    and "F' = (if s then F @ [fid c] else F)"
proof -
  from assms show 1: "py_set_contains F (fid c) = Inr False"
    by (auto simp: focus_dispatch_def split: sum.splits bool.splits prod.splits)
  from assms 1 show "follow_user E B tok (fid c) w = (Inr s, w')"
    by (auto simp: focus_dispatch_def split: sum.splits prod.splits)
  from assms 1 show "F' = (if s then F @ [fid c] else F)"
    by (auto simp: focus_dispatch_def py_set_add_new split: sum.splits prod.splits)
qed

lemma focus_dispatch_events:
  assumes "focus_dispatch E B tok a c F w = (res, w')"
  shows "\<exists>evs. trace w' = trace w @ evs \<and> focus_counts evs = []"
proof (cases "a = ''follow''")
  case False
  from focus_dispatch_other(1) [OF assms False] show ?thesis by (auto simp: quiet_def)
next
  case True
  show ?thesis
  proof (cases "py_set_contains F (fid c) = Inr False")
    case False
    with assms True have "w' = w"
      by (auto simp: focus_dispatch_def split: sum.splits bool.splits)
    then show ?thesis by simp
  next
    case nf: True
    obtain r w1 where fu: "follow_user E B tok (fid c) w = (r, w1)"
      by (cases "follow_user E B tok (fid c) w")
    with assms True nf have "w' = w1"
      by (auto simp: focus_dispatch_def split: sum.splits)
    with follow_user_events [OF fu] show ?thesis by blast
  qed
qed

lemma focus_loop_events:
  "focus_loop E B tok a tc cs idx sc F w = (res, w') \<Longrightarrow>
   \<exists>evs. trace w' = trace w @ evs \<and> focus_counts evs = []
         \<and> (\<forall>n F'. res = Inr (n, F') \<longrightarrow> sc \<le> n \<and> n \<le> sc + int (length cs))"
proof (induction cs arbitrary: idx sc F w)
  case Nil
  then show ?case by auto
next
  case (Cons c cs)
  show ?case
  proof (cases "short_hash (hash c)")
    case (Inl e)
    with Cons.prems have "res = Inl e" "w' = w" by simp_all
    then show ?thesis by simp
  next
    case (Inr sh)
    obtain r w1 where d: "focus_dispatch E B tok a c F w = (r, w1)"
      by (cases "focus_dispatch E B tok a c F w")
    from focus_dispatch_events [OF d] obtain ev1 where ev1:
      "trace w1 = trace w @ ev1" "focus_counts ev1 = []" by blast
    show ?thesis
    proof (cases r)
      case (Inl e)
      with Cons.prems Inr d have "res = Inl e" "w' = w1" by simp_all
      with ev1 show ?thesis by auto
    next
      case r: (Inr ro)
      show ?thesis
      proof (cases ro)
        case None
        with Cons.prems Inr d r
        have "focus_loop E B tok a tc cs (idx + 1) (sc + 1) F w1 = (res, w')" by simp
        from Cons.IH [OF this] obtain ev2 where
          "trace w' = trace w1 @ ev2" "focus_counts ev2 = []"
          "\<forall>n F'. res = Inr (n, F') \<longrightarrow> sc + 1 \<le> n \<and> n \<le> sc + 1 + int (length cs)"
          by blast
        with ev1 have "trace w' = trace w @ (ev1 @ ev2)" "focus_counts (ev1 @ ev2) = []"
          "\<forall>n F'. res = Inr (n, F') \<longrightarrow> sc \<le> n \<and> n \<le> sc + int (length (c # cs))"
          by auto
        then show ?thesis by blast
      next
        case (Some sf)
        obtain s F1 where sf: "sf = (s, F1)" by (cases sf)
        let ?w2 = "if idx < tc then emit (action_wait B a) w1 else w1"
        let ?ev = "if idx < tc then [action_wait B a] else []"
        let ?sc = "if s then sc + 1 else sc"
        have w2: "trace ?w2 = trace w1 @ ?ev" by simp
        have fc: "focus_counts ?ev = []" by (simp add: action_wait_def)
        from Cons.prems Inr d r Some sf
        have "focus_loop E B tok a tc cs (idx + 1) ?sc F1 ?w2 = (res, w')" by simp
        from Cons.IH [OF this] obtain ev2 where
          "trace w' = trace ?w2 @ ev2" "focus_counts ev2 = []"
          "\<forall>n F'. res = Inr (n, F') \<longrightarrow> ?sc \<le> n \<and> n \<le> ?sc + int (length cs)"
          by blast
        with ev1 w2 fc have "trace w' = trace w @ (ev1 @ ?ev @ ev2)"
          "focus_counts (ev1 @ ?ev @ ev2) = []"
          "\<forall>n F'. res = Inr (n, F') \<longrightarrow> sc \<le> n \<and> n \<le> sc + int (length (c # cs))"
          by (auto split: if_splits)
        then show ?thesis by blast
      qed
    qed
  qed
qed

lemma follow_runI:
  assumes "distinct F'" and "set F' \<subseteq> set F \<union> fid ` set cs"
    and "length (follow_successes B evs) + length F = length F'"
    and "follow_targets B evs \<subseteq> fid ` set cs"
    and "0 < max_retries B \<Longrightarrow> \<forall>c \<in> set cs. \<exists>i. fid c = JInt i \<Longrightarrow>
         \<forall>v \<in> set F. \<exists>i. v = JInt i \<Longrightarrow> follow_targets B evs = fid ` set cs - set F"
  shows "follow_run B F cs F' evs"
  unfolding follow_run_def using assms by simp

lemma follow_runD:
  assumes "follow_run B F cs F' evs"
  shows "distinct F'" and "set F' \<subseteq> set F \<union> fid ` set cs"
    and "length (follow_successes B evs) + length F = length F'"
    and "follow_targets B evs \<subseteq> fid ` set cs"
    and "0 < max_retries B \<Longrightarrow> \<forall>c \<in> set cs. \<exists>i. fid c = JInt i \<Longrightarrow>
         \<forall>v \<in> set F. \<exists>i. v = JInt i \<Longrightarrow> follow_targets B evs = fid ` set cs - set F"
  using assms unfolding follow_run_def by simp_all

lemma focus_loop_follow:
  assumes "focus_loop E B tok ''follow'' tc cs idx sc F w = (Inr (n, F'), w')"
    and "distinct F"
  shows "\<exists>evs. trace w' = trace w @ evs \<and> follow_run B F cs F' evs"
  using assms
proof (induction cs arbitrary: idx sc F w)
  case Nil
  then have "w' = w" "F' = F" by simp_all
  moreover have "follow_run B F [] F []" using Nil.prems(2) by (intro follow_runI) simp_all
  ultimately show ?case by simp
next
  case (Cons c cs)
  from Cons.prems(1) obtain sh where sh: "short_hash (hash c) = Inr sh"
    by (cases "short_hash (hash c)") simp_all
  obtain r w1 where d: "focus_dispatch E B tok ''follow'' c F w = (r, w1)"
    by (cases "focus_dispatch E B tok ''follow'' c F w")
  from Cons.prems(1) sh d obtain ro where r: "r = Inr ro" by (cases r) simp_all
  show ?case
  proof (cases ro)
    case None
    from focus_dispatch_follow_skip [OF d [unfolded r None]]
    have w1: "w1 = w" and inF: "py_set_contains F (fid c) = Inr True" by simp_all
    from Cons.prems(1) sh d r None w1
    have "focus_loop E B tok ''follow'' tc cs (idx + 1) (sc + 1) F w = (Inr (n, F'), w')"
      by simp
    from Cons.IH [OF this Cons.prems(2)] obtain evs where evs:
      "trace w' = trace w @ evs" "follow_run B F cs F' evs"
      by (elim exE conjE)
    note fr = follow_runD [OF evs(2)]
    have "follow_run B F (c # cs) F' evs"
    proof (rule follow_runI)
      show "distinct F'" by (rule fr(1))
      show "set F' \<subseteq> set F \<union> fid ` set (c # cs)" using fr(2) by auto
      show "length (follow_successes B evs) + length F = length F'" by (rule fr(3))
      show "follow_targets B evs \<subseteq> fid ` set (c # cs)" using fr(4) by auto
    next
      assume mr: "0 < max_retries B" and ci: "\<forall>c \<in> set (c # cs). \<exists>i. fid c = JInt i"
        and ints: "\<forall>v \<in> set F. \<exists>i. v = JInt i"
      from ci obtain j where j: "fid c = JInt j" by auto
      from ci have ci': "\<forall>c \<in> set cs. \<exists>i. fid c = JInt i" by simp
      from inF py_set_contains_ints [OF ints, of j] j have "fid c \<in> set F" by simp
      moreover from fr(5) [OF mr ci' ints]
      have "follow_targets B evs = fid ` set cs - set F" .
      ultimately show "follow_targets B evs = fid ` set (c # cs) - set F" by auto
    qed
    with evs(1) show ?thesis by (intro exI [of _ evs] conjI)
  next
    case (Some sf)
    obtain s F1 where sf: "sf = (s, F1)" by (cases sf)
    from focus_dispatch_follow_call [OF d [unfolded r Some sf]]
    have nin: "py_set_contains F (fid c) = Inr False"
      and fu: "follow_user E B tok (fid c) w = (Inr s, w1)"
      and F1: "F1 = (if s then F @ [fid c] else F)" by simp_all
    from nin have notin: "fid c \<notin> set F" by (rule py_set_contains_False_notin)
    from follow_user_events [OF fu] obtain ev1 where ev1:
      "trace w1 = trace w @ ev1" "follow_targets B ev1 \<subseteq> {fid c}"
      "0 < max_retries B \<longrightarrow> follow_targets B ev1 = {fid c}"
      "length (follow_successes B ev1) = (if Inr s = (Inr True :: exn + bool) then 1 else 0)"
      by (elim exE conjE)
    from ev1(4) have ev1s: "length (follow_successes B ev1) = (if s then 1 else 0)" by simp
    let ?w2 = "if idx < tc then emit (action_wait B ''follow'') w1 else w1"
    let ?ev = "if idx < tc then [action_wait B ''follow''] else []"
    let ?sc = "if s then sc + 1 else sc"
    have w2: "trace ?w2 = trace w1 @ ?ev" by simp
    have q: "quiet B ?ev" by simp
    have setF1: "set F1 = (if s then insert (fid c) (set F) else set F)" using F1 by simp
    have dF1: "distinct F1" using F1 Cons.prems(2) notin by simp
    from Cons.prems(1) sh d r Some sf
    have "focus_loop E B tok ''follow'' tc cs (idx + 1) ?sc F1 ?w2 = (Inr (n, F'), w')"
      by simp
    from Cons.IH [OF this dF1] obtain ev2 where ev2:
      "trace w' = trace ?w2 @ ev2" "follow_run B F1 cs F' ev2"
      by (elim exE conjE)
    note fr = follow_runD [OF ev2(2)]
    let ?evs = "ev1 @ ?ev @ ev2"
    have t: "trace w' = trace w @ ?evs" using ev1(1) w2 ev2(1) by simp
    have qt: "follow_targets B ?ev = {}" and qs: "follow_successes B ?ev = []"
      using q by (simp_all add: quiet_def)
    have ft: "follow_targets B ?evs = follow_targets B ev1 \<union> follow_targets B ev2"
      using qt by simp
    have fs: "length (follow_successes B ?evs) =
              length (follow_successes B ev1) + length (follow_successes B ev2)"
      using qs by simp
    have "follow_run B F (c # cs) F' ?evs"
    proof (rule follow_runI)
      show "distinct F'" by (rule fr(1))
      show "set F' \<subseteq> set F \<union> fid ` set (c # cs)" using fr(2) setF1 by (cases s) auto
      show "length (follow_successes B ?evs) + length F = length F'"
        using fs ev1s fr(3) F1 by (cases s) simp_all
      show "follow_targets B ?evs \<subseteq> fid ` set (c # cs)"
        unfolding ft using ev1(2) fr(4) by auto
    next
      assume mr: "0 < max_retries B" and ci: "\<forall>c \<in> set (c # cs). \<exists>i. fid c = JInt i"
        and ints: "\<forall>v \<in> set F. \<exists>i. v = JInt i"
      from ci have ci': "\<forall>c \<in> set cs. \<exists>i. fid c = JInt i" by simp
      from ci obtain j where j: "fid c = JInt j" by auto
      have ints1: "\<forall>v \<in> set F1. \<exists>i. v = JInt i" using ints j setF1 by (cases s) auto
      from fr(5) [OF mr ci' ints1] have e2: "follow_targets B ev2 = fid ` set cs - set F1" .
      from mr ev1(3) have e1: "follow_targets B ev1 = {fid c}" by simp
      show "follow_targets B ?evs = fid ` set (c # cs) - set F"
        unfolding ft e1 e2 using setF1 notin by (cases s) auto
    qed
    with t show ?thesis by (intro exI [of _ ?evs] conjI)
  qed
qed

section \<open>The action calls of a run\<close>

lemma focus_loop_skip:
  assumes "short_hash (hash c) = Inr sh" and "py_set_contains F (fid c) = Inr True"
  shows "focus_loop E B tok ''follow'' t (c # cs) i sc F v =
         focus_loop E B tok ''follow'' t cs (i + 1) (sc + 1) F v"
  using assms by (simp add: focus_dispatch_def)

lemma focus_loop_call:
  assumes "short_hash (hash c) = Inr sh" and "py_set_contains F (fid c) = Inr False"
    and "follow_user E B tok (fid c) v = (Inr s, v1)"
  shows "focus_loop E B tok ''follow'' t (c # cs) i sc F v =
         focus_loop E B tok ''follow'' t cs (i + 1) (if s then sc + 1 else sc)
           (if s then F @ [fid c] else F)
           (if i < t then emit (action_wait B ''follow'') v1 else v1)"
  using assms by (simp add: focus_dispatch_def py_set_add_new)

lemma get_feed_ok_retries:
  assumes "get_feed E B tok limit w = (Inr (True, cd), w1)"
  shows "0 < max_retries B"
proof (rule ccontr)
  assume "\<not> 0 < max_retries B"
  then have "max_retries B \<le> 0" by simp
  then have "make_request E B ''POST'' ''feed-items'' tok (feed_payload B) w = (Inr None, w)"
    unfolding make_request_def by (rule loop_exhausted)
  with assms show False by (simp add: get_feed_def)
qed

lemma endpoint_requests_Nil [simp]: "endpoint_requests B ep [] = []"
  by (simp add: endpoint_requests_def)

lemma endpoint_requests_append [simp]:
  "endpoint_requests B ep (a @ b) = endpoint_requests B ep a @ endpoint_requests B ep b"
  by (simp add: endpoint_requests_def)

lemma endpoint_calls_Nil [simp]: "endpoint_calls B ep key [] = []"
  by (simp add: endpoint_calls_def)

lemma endpoint_calls_append [simp]:
  "endpoint_calls B ep key (a @ b) = endpoint_calls B ep key a @ endpoint_calls B ep key b"
  by (simp add: endpoint_calls_def)

lemma endpoint_successes_Nil [simp]: "endpoint_successes B ep [] = []"
  by (simp add: endpoint_successes_def)

lemma endpoint_successes_append [simp]:
  "endpoint_successes B ep (a @ b) = endpoint_successes B ep a @ endpoint_successes B ep b"
  by (simp add: endpoint_successes_def)

lemma followed_authors_Nil [simp]: "followed_authors B [] = []"
  by (simp add: followed_authors_def)

lemma followed_authors_append [simp]:
  "followed_authors B (a @ b) = followed_authors B a @ followed_authors B b"
  by (simp add: followed_authors_def)

lemma endpoint_requests_none:
  "endpoint_requests B ep evs = [] \<Longrightarrow>
   endpoint_calls B ep key evs = [] \<and> endpoint_successes B ep evs = []"
  by (simp add: endpoint_calls_def endpoint_successes_def)

lemma requests_wait [simp]: "requests [action_wait B a] = []"
  by (simp add: action_wait_def)

lemma endpoint_wait [simp]:
  "endpoint_requests B ep [action_wait B a] = []"
  "endpoint_calls B ep key [action_wait B a] = []"
  "endpoint_successes B ep [action_wait B a] = []"
  "followed_authors B [action_wait B a] = []"
  by (simp_all add: endpoint_requests_def endpoint_calls_def endpoint_successes_def
      followed_authors_def)

lemma waits_wait [simp]: "waits [action_wait B a] = 1"
  by (simp add: action_wait_def)

lemma follow_successes_endpoint:
  "follow_successes B evs = endpoint_successes B ''follows'' evs"
  by (simp add: follow_successes_def endpoint_successes_def endpoint_requests_def conj_commute)

lemma repeat_each_Nil [simp]: "repeat_each [] [] = []"
  by (simp add: repeat_each_def)

lemma repeat_each_Cons [simp]:
  "repeat_each (k # ks) (x # xs) = replicate k x @ repeat_each ks xs"
  by (simp add: repeat_each_def)

lemma client_events_call:
  assumes "client_events (mk_request B meth ep tok (JObj [(key, v)])) res evs"
  shows "focus_counts evs = []" and "waits evs = 0"
    and "\<And>ep'. ep' \<noteq> ep \<Longrightarrow> endpoint_requests B ep' evs = []"
    and "endpoint_calls B ep key evs = replicate (length (requests evs)) v"
    and "length (endpoint_successes B ep evs) =
           (case res of Inr (Some r) \<Rightarrow> if status_code r = 200 then 1 else 0 | _ \<Rightarrow> 0)"
proof -
  let ?req = "mk_request B meth ep tok (JObj [(key, v)])"
  from assms show "focus_counts evs = []" and "waits evs = 0"
    by (simp_all add: client_events_def)
  from assms have sub: "fst ` set (requests evs) \<subseteq> {?req}"
    and cnt: "length (filter (\<lambda>ro. answered_200 (snd ro)) (requests evs)) =
          (case res of Inr (Some r) \<Rightarrow> if status_code r = 200 then 1 else 0 | _ \<Rightarrow> 0)"
    by (simp_all add: client_events_def)
  have all: "\<And>ro. ro \<in> set (requests evs) \<Longrightarrow> fst ro = ?req" using sub by auto
  have u: "url ?req = api_url B @ ''/'' @ ep" by (simp add: mk_request_def)
  have here: "endpoint_requests B ep evs = requests evs"
    unfolding endpoint_requests_def by (rule filter_True) (simp add: all u)
  show "endpoint_requests B ep' evs = []" if "ep' \<noteq> ep" for ep'
    unfolding endpoint_requests_def using that by (simp add: filter_empty_conv all u)
  have "map (\<lambda>ro. json_field key (json_payload (fst ro))) (requests evs)
        = map (\<lambda>ro. v) (requests evs)"
    by (rule map_cong) (simp_all add: all mk_request_def json_field_def)
  then show "endpoint_calls B ep key evs = replicate (length (requests evs)) v"
    by (simp add: endpoint_calls_def here map_replicate_const)
  show "length (endpoint_successes B ep evs) =
           (case res of Inr (Some r) \<Rightarrow> if status_code r = 200 then 1 else 0 | _ \<Rightarrow> 0)"
    using cnt by (simp add: endpoint_successes_def here)
qed

lemma make_request_call:
  assumes "make_request E B meth ep tok (JObj [(key, v)]) w = (Inr resp, w')"
  shows "\<exists>evs. trace w' = trace w @ evs \<and> action_call B ep key v (status_is 200 resp) evs"
proof -
  from make_request_events [OF assms] obtain evs where evs:
    "trace w' = trace w @ evs"
    "client_events (mk_request B meth ep tok (JObj [(key, v)])) (Inr resp) evs"
    "0 < max_retries B \<longrightarrow> requests evs \<noteq> []" by (elim exE conjE)
  note ce = client_events_call [OF evs(2)]
  have k: "(0 < max_retries B \<longrightarrow> 1 \<le> length (requests evs))
           \<and> endpoint_calls B ep key evs = replicate (length (requests evs)) v"
    using evs(3) ce(4) by (cases "requests evs") simp_all
  have s: "length (endpoint_successes B ep evs) = (if status_is 200 resp then 1 else 0)"
    using ce(5) by (simp add: status_is_200 split: option.splits)
  have "action_call B ep key v (status_is 200 resp) evs"
    unfolding action_call_def using ce(1,2,3) k s by blast
  with evs(1) show ?thesis by blast
qed

lemma like_cast_call:
  assumes "like_cast E B tok h w = (Inr s, w')"
  shows "\<exists>evs. trace w' = trace w @ evs \<and> action_call B ''cast-likes'' ''castHash'' h s evs"
proof -
  from assms obtain resp where
    "make_request E B ''PUT'' ''cast-likes'' tok (JObj [(''castHash'', h)]) w = (Inr resp, w')"
    "s = status_is 200 resp"
    by (auto simp: like_cast_def split: prod.splits sum.splits)
  with make_request_call show ?thesis by blast
qed

lemma recast_call:
  assumes "recast E B tok h w = (Inr s, w')"
  shows "\<exists>evs. trace w' = trace w @ evs \<and> action_call B ''recasts'' ''castHash'' h s evs"
proof -
  from assms obtain resp where
    "make_request E B ''PUT'' ''recasts'' tok (JObj [(''castHash'', h)]) w = (Inr resp, w')"
    "s = status_is 200 resp"
    by (auto simp: recast_def split: prod.splits sum.splits)
  with make_request_call show ?thesis by blast
qed

lemma follow_user_call:
  assumes "follow_user E B tok v w = (Inr s, w')"
  shows "\<exists>evs. trace w' = trace w @ evs \<and> action_call B ''follows'' ''targetFid'' v s evs"
proof -
  from assms obtain resp where
    "make_request E B ''PUT'' ''follows'' tok (JObj [(''targetFid'', v)]) w = (Inr resp, w')"
    "s = status_is 200 resp"
    by (auto simp: follow_user_def split: prod.splits sum.splits)
  with make_request_call show ?thesis by blast
qed


lemma action_callD:
  assumes "action_call B ep key v s evs"
  shows "focus_counts evs = []" and "waits evs = 0"
    and "\<And>ep'. ep' \<noteq> ep \<Longrightarrow> endpoint_requests B ep' evs = []"
    and "\<exists>k. (0 < max_retries B \<longrightarrow> 1 \<le> k) \<and> endpoint_calls B ep key evs = replicate k v"
    and "length (endpoint_successes B ep evs) = (if s then 1 else 0)"
  using assms unfolding action_call_def by simp_all

lemma followed_authors_call:
  assumes "action_call B ''follows'' ''targetFid'' v s evs"
  shows "followed_authors B evs = (if s then [v] else [])"
proof -
  let ?f = "\<lambda>ro. json_field ''targetFid'' (json_payload (fst ro))"
  let ?xs = "endpoint_requests B ''follows'' evs"
  from action_callD(4) [OF assms] obtain k where "map ?f ?xs = replicate k v"
    unfolding endpoint_calls_def by (elim exE conjE)
  then have "set (map ?f ?xs) \<subseteq> {v}" by (auto simp: set_replicate_conv_if)
  then have all: "\<And>ro. ro \<in> set ?xs \<Longrightarrow> ?f ro = v" by auto
  have "map ?f (endpoint_successes B ''follows'' evs)
        = map (\<lambda>ro. v) (endpoint_successes B ''follows'' evs)"
    by (rule map_cong) (simp_all add: endpoint_successes_def all)
  then have "followed_authors B evs = replicate (length (endpoint_successes B ''follows'' evs)) v"
    by (simp add: followed_authors_def map_replicate_const)
  with action_callD(5) [OF assms] show ?thesis by simp
qed

lemma focus_dispatch_hash:
  assumes "(a = ''like'' \<and> ep = ''cast-likes'') \<or> (a = ''recast'' \<and> ep = ''recasts'')"
    and "focus_dispatch E B tok a c F w = (Inr ro, w')"
  shows "\<exists>s evs. ro = Some (s, F) \<and> trace w' = trace w @ evs
           \<and> action_call B ep ''castHash'' (hash c) s evs"
proof (cases "a = ''like''")
  case True
  with assms(1) have ep: "ep = ''cast-likes''" by auto
  from True assms(2) obtain s where "like_cast E B tok (hash c) w = (Inr s, w')"
    and "ro = Some (s, F)"
    by (cases "like_cast E B tok (hash c) w")
      (auto simp: focus_dispatch_def split: sum.splits)
  with like_cast_call [of E B tok "hash c" w s w'] ep show ?thesis by blast
next
  case False
  with assms(1) have a: "a = ''recast''" and ep: "ep = ''recasts''" by auto
  from a assms(2) obtain s where "recast E B tok (hash c) w = (Inr s, w')"
    and "ro = Some (s, F)"
    by (cases "recast E B tok (hash c) w")
      (auto simp: focus_dispatch_def split: sum.splits)
  with recast_call [of E B tok "hash c" w s w'] ep show ?thesis by blast
qed

lemma focus_loop_hash:
  assumes a: "(a = ''like'' \<and> ep = ''cast-likes'') \<or> (a = ''recast'' \<and> ep = ''recasts'')"
    and mr: "0 < max_retries B"
  shows "focus_loop E B tok a tc cs idx sc F w = (Inr (n, F'), w') \<Longrightarrow>
         \<exists>evs ks. trace w' = trace w @ evs \<and> 0 \<notin> set ks
               \<and> processed B ep ''castHash'' (map hash cs) (n - sc) evs ks"
proof (induction cs arbitrary: idx sc F w)
  case Nil
  then have "w' = w" "n = sc" by simp_all
  then have "trace w' = trace w @ []" "0 \<notin> set ([] :: nat list)"
    "processed B ep ''castHash'' (map hash []) (n - sc) [] []"
    by (simp_all add: processed_def)
  then show ?case by (intro exI [of _ "[]"] conjI)
next
  case (Cons c cs)
  from Cons.prems obtain sh where sh: "short_hash (hash c) = Inr sh"
    by (cases "short_hash (hash c)") simp_all
  obtain r w1 where d: "focus_dispatch E B tok a c F w = (r, w1)"
    by (cases "focus_dispatch E B tok a c F w")
  from Cons.prems sh d obtain ro where r: "r = Inr ro" by (cases r) simp_all
  from focus_dispatch_hash [OF a d [unfolded r]] obtain s ev1 where
    ro: "ro = Some (s, F)" and t1: "trace w1 = trace w @ ev1"
    and ac: "action_call B ep ''castHash'' (hash c) s ev1" by (elim exE conjE)
  from action_callD(4) [OF ac] mr obtain k where k: "1 \<le> k"
    and c1: "endpoint_calls B ep ''castHash'' ev1 = replicate k (hash c)" by auto
  note s1 = action_callD(5) [OF ac]
  let ?w2 = "if idx < tc then emit (action_wait B a) w1 else w1"
  let ?ev = "if idx < tc then [action_wait B a] else []"
  let ?sc = "if s then sc + 1 else sc"
  have w2: "trace ?w2 = trace w1 @ ?ev" by simp
  from Cons.prems sh d r ro
  have "focus_loop E B tok a tc cs (idx + 1) ?sc F ?w2 = (Inr (n, F'), w')" by simp
  from Cons.IH [OF this] obtain ev2 ks where t2: "trace w' = trace ?w2 @ ev2"
    and nz: "0 \<notin> set ks"
    and p: "processed B ep ''castHash'' (map hash cs) (n - ?sc) ev2 ks" by (elim exE conjE)
  let ?evs = "ev1 @ ?ev @ ev2"
  have t: "trace w' = trace w @ ?evs" using t1 w2 t2 by simp
  have nz': "0 \<notin> set (k # ks)" using k nz by simp
  have e: "endpoint_calls B ep ''castHash'' ?ev = []" "endpoint_successes B ep ?ev = []"
    by simp_all
  have "processed B ep ''castHash'' (map hash (c # cs)) (n - sc) ?evs (k # ks)"
    using p k c1 s1 e unfolding processed_def by (cases s) simp_all
  with t nz' show ?case by (intro exI [of _ ?evs] exI [of _ "k # ks"] conjI)
qed

lemma py_set_contains_member:
  "py_set_contains F v = Inr b \<Longrightarrow> py_member F v = b"
  by (auto simp: py_set_contains_def py_member_def split: if_splits)

lemma focus_loop_follow_trace:
  assumes mr: "0 < max_retries B"
  shows "focus_loop E B tok ''follow'' tc cs idx sc F w = (Inr (n, F'), w') \<Longrightarrow>
         \<exists>evs ks ss. trace w' = trace w @ evs
               \<and> follow_trace B F (map fid cs) (n - sc) evs ks ss"
proof (induction cs arbitrary: idx sc F w)
  case Nil
  then have "w' = w" "n = sc" by simp_all
  then have "trace w' = trace w @ []"
    "follow_trace B F (map fid []) (n - sc) [] [] []"
    by (simp_all add: follow_trace_def processed_def)
  then show ?case by (intro exI [of _ "[]"] conjI)
next
  case (Cons c cs)
  from Cons.prems obtain sh where sh: "short_hash (hash c) = Inr sh"
    by (cases "short_hash (hash c)") simp_all
  obtain r w1 where d: "focus_dispatch E B tok ''follow'' c F w = (r, w1)"
    by (cases "focus_dispatch E B tok ''follow'' c F w")
  from Cons.prems sh d obtain ro where r: "r = Inr ro" by (cases r) simp_all
  show ?case
  proof (cases ro)
    case None
    from focus_dispatch_follow_skip [OF d [unfolded r None]]
    have w1: "w1 = w" and inF: "py_set_contains F (fid c) = Inr True" by simp_all
    from py_set_contains_member [OF inF] have m: "py_member F (fid c)" by simp
    from Cons.prems sh d r None w1
    have "focus_loop E B tok ''follow'' tc cs (idx + 1) (sc + 1) F w = (Inr (n, F'), w')"
      by simp
    from Cons.IH [OF this] obtain evs ks ss where t: "trace w' = trace w @ evs"
      and ft: "follow_trace B F (map fid cs) (n - (sc + 1)) evs ks ss" by (elim exE conjE)
    have "follow_trace B F (map fid (c # cs)) (n - sc) evs (0 # ks) (False # ss)"
      using ft m unfolding follow_trace_def processed_def by simp
    with t show ?thesis by (intro exI [of _ evs] exI [of _ "0 # ks"] exI [of _ "False # ss"] conjI)
  next
    case (Some sf)
    obtain s F1 where sf: "sf = (s, F1)" by (cases sf)
    from focus_dispatch_follow_call [OF d [unfolded r Some sf]]
    have nin: "py_set_contains F (fid c) = Inr False"
      and fu: "follow_user E B tok (fid c) w = (Inr s, w1)"
      and F1: "F1 = (if s then F @ [fid c] else F)" by simp_all
    from py_set_contains_member [OF nin] have m: "\<not> py_member F (fid c)" by simp
    from follow_user_call [OF fu] obtain ev1 where t1: "trace w1 = trace w @ ev1"
      and ac: "action_call B ''follows'' ''targetFid'' (fid c) s ev1" by (elim exE conjE)
    from action_callD(4) [OF ac] mr obtain k where k: "1 \<le> k"
      and c1: "endpoint_calls B ''follows'' ''targetFid'' ev1 = replicate k (fid c)" by auto
    note s1 = action_callD(5) [OF ac]
    note wt1 = action_callD(2) [OF ac]
    note fa1 = followed_authors_call [OF ac]
    let ?w2 = "if idx < tc then emit (action_wait B ''follow'') w1 else w1"
    let ?ev = "if idx < tc then [action_wait B ''follow''] else []"
    let ?sc = "if s then sc + 1 else sc"
    have w2: "trace ?w2 = trace w1 @ ?ev" by simp
    from Cons.prems sh d r Some sf
    have "focus_loop E B tok ''follow'' tc cs (idx + 1) ?sc F1 ?w2 = (Inr (n, F'), w')"
      by simp
    from Cons.IH [OF this] obtain ev2 ks ss where t2: "trace w' = trace ?w2 @ ev2"
      and ft: "follow_trace B F1 (map fid cs) (n - ?sc) ev2 ks ss" by (elim exE conjE)
    let ?evs = "ev1 @ ?ev @ ev2"
    have t: "trace w' = trace w @ ?evs" using t1 w2 t2 by simp
    have e: "endpoint_calls B ''follows'' ''targetFid'' ?ev = []"
      "endpoint_successes B ''follows'' ?ev = []" "followed_authors B ?ev = []"
      "waits ?ev \<le> 1"
      by simp_all
    have "follow_trace B F (map fid (c # cs)) (n - sc) ?evs (k # ks) (s # ss)"
      using ft m k c1 s1 wt1 fa1 e F1 unfolding follow_trace_def processed_def
      by (cases s) simp_all
    with t show ?thesis
      by (intro exI [of _ ?evs] exI [of _ "k # ks"] exI [of _ "s # ss"] conjI)
  qed
qed


lemma client_events_elsewhere:
  assumes "client_events (mk_request B meth ep tok p) res evs" and "ep' \<noteq> ep"
  shows "endpoint_requests B ep' evs = []" and "waits evs = 0"
proof -
  from assms(1) have sub: "fst ` set (requests evs) \<subseteq> {mk_request B meth ep tok p}"
    and "waits evs = 0" by (simp_all add: client_events_def)
  then show "waits evs = 0" by simp
  from sub have "\<And>ro. ro \<in> set (requests evs) \<Longrightarrow> fst ro = mk_request B meth ep tok p"
    by auto
  then show "endpoint_requests B ep' evs = []"
    unfolding endpoint_requests_def using assms(2)
    by (simp add: filter_empty_conv mk_request_def)
qed

lemma get_feed_elsewhere:
  assumes "get_feed E B tok limit w = (res, w')" and "ep \<noteq> ''feed-items''"
  shows "\<exists>evs. trace w' = trace w @ evs \<and> endpoint_requests B ep evs = [] \<and> waits evs = 0"
proof -
  obtain r w1 where mr: "make_request E B ''POST'' ''feed-items'' tok (feed_payload B) w = (r, w1)"
    by (cases "make_request E B ''POST'' ''feed-items'' tok (feed_payload B) w")
  with assms have "w' = w1"
    by (auto simp: get_feed_def split: sum.splits option.splits if_splits)
  moreover from make_request_events [OF mr] obtain evs where
    "trace w1 = trace w @ evs"
    "client_events (mk_request B ''POST'' ''feed-items'' tok (feed_payload B)) r evs"
    by blast
  ultimately show ?thesis using client_events_elsewhere [OF _ assms(2)] by blast
qed

lemma run_endpoint_requests:
  assumes gf: "get_feed E B tok limit (emit (Print_focus idx a tc) w) = (res, w1)"
    and tr: "trace w2 = trace w1 @ evs" and ep: "ep \<noteq> ''feed-items''"
  shows "endpoint_requests B ep (new_events w w2) = endpoint_requests B ep evs"
    and "waits (new_events w w2) = waits evs"
proof -
  from get_feed_elsewhere [OF gf ep] obtain ev0 where ev0:
    "trace w1 = trace (emit (Print_focus idx a tc) w) @ ev0"
    "endpoint_requests B ep ev0 = []" "waits ev0 = 0" by (elim exE conjE)
  let ?pre = "Print_focus idx a tc # ev0"
  have "trace w2 = trace w @ (?pre @ evs)" using ev0(1) tr by simp
  then have n: "new_events w w2 = ?pre @ evs" by (rule new_events_append)
  have "endpoint_requests B ep ?pre = []" using ev0(2) by (simp add: endpoint_requests_def)
  moreover have "endpoint_requests B ep (?pre @ evs)
      = endpoint_requests B ep ?pre @ endpoint_requests B ep evs"
    by (rule endpoint_requests_append)
  ultimately show "endpoint_requests B ep (new_events w w2) = endpoint_requests B ep evs"
    unfolding n by simp
  show "waits (new_events w w2) = waits evs" unfolding n using ev0(3) by simp
qed

lemma processed_cong:
  "endpoint_requests B ep a = endpoint_requests B ep b \<Longrightarrow>
   processed B ep key vals n a ks = processed B ep key vals n b ks"
  by (simp add: processed_def endpoint_calls_def endpoint_successes_def)

lemma follow_trace_cong:
  "endpoint_requests B ''follows'' a = endpoint_requests B ''follows'' b \<Longrightarrow>
   waits a = waits b \<Longrightarrow>
   follow_trace B F vals n a ks ss = follow_trace B F vals n b ks ss"
  by (simp add: follow_trace_def processed_def endpoint_calls_def endpoint_successes_def
      followed_authors_def)

lemma follow_user_ok:
  assumes ok: "\<forall>k r. url r = api_url B @ ''/follows'' \<longrightarrow> answered_200 (transport E k r)"
    and mr: "0 < max_retries B"
  shows "\<exists>out. follow_user E B tok v w =
           (Inr True, send (mk_request B ''PUT'' ''follows'' tok (JObj [(''targetFid'', v)])) out w)"
proof -
  let ?req = "mk_request B ''PUT'' ''follows'' tok (JObj [(''targetFid'', v)])"
  let ?out = "transport E (calls w) ?req"
  have "url ?req = api_url B @ ''/follows''" by (simp add: mk_request_def)
  with ok have "answered_200 ?out" by blast
  then obtain r where r: "?out = Response r" "status_code r = 200" by (cases ?out) simp_all
  have "make_request_loop E B ?req 0 w = (Inr (Some r), send ?req ?out w)"
    by (subst make_request_loop.simps) (simp add: mr r Let_def)
  then have "follow_user E B tok v w = (Inr True, send ?req ?out w)"
    by (simp add: follow_user_def make_request_def status_is_200 r)
  then show ?thesis by blast
qed

lemma endpoint_calls_follow_request:
  "endpoint_calls B ''follows'' ''targetFid''
     [Request (mk_request B ''PUT'' ''follows'' tok (JObj [(''targetFid'', v)])) out] = [v]"
  by (simp add: endpoint_calls_def endpoint_requests_def mk_request_def json_field_def)

lemma focus_loop_follow_all_ok:
  assumes ok: "\<forall>k r. url r = api_url B @ ''/follows'' \<longrightarrow> answered_200 (transport E k r)"
    and mr: "0 < max_retries B"
  shows "\<forall>c \<in> set cs. \<exists>i. fid c = JInt i \<Longrightarrow> \<forall>v \<in> set F. \<exists>i. v = JInt i \<Longrightarrow>
         focus_loop E B tok ''follow'' tc cs idx sc F w = (Inr (n, F'), w') \<Longrightarrow>
         \<exists>evs. trace w' = trace w @ evs
             \<and> endpoint_calls B ''follows'' ''targetFid'' evs = authors_called F (map fid cs)
             \<and> n = sc + int (length cs)"
proof (induction cs arbitrary: idx sc F w)
  case Nil
  then have "w' = w" "n = sc" by simp_all
  then show ?case by simp
next
  case (Cons c cs)
  from Cons.prems(3) obtain sh where sh: "short_hash (hash c) = Inr sh"
    by (cases "short_hash (hash c)") simp_all
  from Cons.prems(1) obtain j where j: "fid c = JInt j" by auto
  from Cons.prems(1) have ci: "\<forall>c \<in> set cs. \<exists>i. fid c = JInt i" by simp
  have pc: "py_set_contains F (fid c) = Inr (fid c \<in> set F)"
    unfolding j by (rule py_set_contains_ints [OF Cons.prems(2)])
  show ?case
  proof (cases "fid c \<in> set F")
    case True
    with pc have "py_set_contains F (fid c) = Inr True" by simp
    from focus_loop_skip [OF sh this] Cons.prems(3)
    have "focus_loop E B tok ''follow'' tc cs (idx + 1) (sc + 1) F w = (Inr (n, F'), w')"
      by simp
    from Cons.IH [OF ci Cons.prems(2) this] obtain evs where
      "trace w' = trace w @ evs"
      "endpoint_calls B ''follows'' ''targetFid'' evs = authors_called F (map fid cs)"
      "n = sc + 1 + int (length cs)" by (elim exE conjE)
    with True have "trace w' = trace w @ evs"
      "endpoint_calls B ''follows'' ''targetFid'' evs = authors_called F (map fid (c # cs))"
      "n = sc + int (length (c # cs))" by simp_all
    then show ?thesis by (intro exI [of _ evs] conjI)
  next
    case False
    with pc have nin: "py_set_contains F (fid c) = Inr False" by simp
    let ?req = "mk_request B ''PUT'' ''follows'' tok (JObj [(''targetFid'', fid c)])"
    from follow_user_ok [OF ok mr] obtain out where
      fu: "follow_user E B tok (fid c) w = (Inr True, send ?req out w)" by blast
    let ?w1 = "send ?req out w"
    let ?w2 = "if idx < tc then emit (action_wait B ''follow'') ?w1 else ?w1"
    let ?ev = "if idx < tc then [action_wait B ''follow''] else []"
    have w2: "trace ?w2 = trace w @ ([Request ?req out] @ ?ev)" by simp
    from focus_loop_call [OF sh nin fu] Cons.prems(3)
    have fl: "focus_loop E B tok ''follow'' tc cs (idx + 1) (sc + 1) (F @ [fid c]) ?w2
           = (Inr (n, F'), w')" by simp
    have fi: "\<forall>v \<in> set (F @ [fid c]). \<exists>i. v = JInt i" using Cons.prems(2) j by auto
    from Cons.IH [OF ci fi fl] obtain ev2 where ev2:
      "trace w' = trace ?w2 @ ev2"
      "endpoint_calls B ''follows'' ''targetFid'' ev2 = authors_called (F @ [fid c]) (map fid cs)"
      "n = sc + 1 + int (length cs)" by (elim exE conjE)
    let ?evs = "[Request ?req out] @ ?ev @ ev2"
    have t: "trace w' = trace w @ ?evs" using ev2(1) w2 by simp
    have e: "endpoint_calls B ''follows'' ''targetFid'' ?ev = []" by simp
    have c: "endpoint_calls B ''follows'' ''targetFid'' ?evs = authors_called F (map fid (c # cs))"
      using False ev2(2) e endpoint_calls_follow_request [of B tok "fid c" out]
      by (simp del: append.simps add: endpoint_calls_append)
    have "n = sc + int (length (c # cs))" using ev2(3) by simp
    with t c show ?thesis by (intro exI [of _ ?evs] conjI)
  qed
qed

lemma authors_called_set:
  "distinct (authors_called F vs) \<and> set (authors_called F vs) = set vs - set F"
  by (induction vs arbitrary: F) auto

lemma length_authors_called: "length (authors_called [] vs) = card (set vs)"
  using authors_called_set [of "[]" vs] by (metis Diff_empty distinct_card list.set(1))

section \<open>The shuffle, the selection and the run\<close>

lemma length_shuffle_from [simp]: "length (shuffle_from E k i x) = length x"
  by (induction i arbitrary: x) (simp_all add: Let_def)

lemma mset_shuffle_from: "i < length x \<Longrightarrow> mset (shuffle_from E k i x) = mset x"
proof (induction i arbitrary: x)
  case 0
  then show ?case by simp
next
  case (Suc i)
  let ?j = "randbelow E k (Suc i + 1) mod (Suc i + 1)"
  let ?y = "x[Suc i := x ! ?j, ?j := x ! Suc i]"
  have "?j < Suc i + 1" by (rule mod_less_divisor) simp
  then have j: "?j < length x" using Suc.prems by linarith
  have "mset ?y = mset x" using mset_swap [OF j Suc.prems] by simp
  moreover have "i < length ?y" using Suc.prems by simp
  ultimately show ?case using Suc.IH [of ?y] by (simp add: Let_def)
qed

lemma length_shuffle [simp]: "length (shuffle E k x) = length x"
  by (simp add: shuffle_def)

lemma mset_shuffle [simp]: "mset (shuffle E k x) = mset x"
  by (cases x) (simp_all add: shuffle_def mset_shuffle_from)

lemma set_shuffle [simp]: "set (shuffle E k x) = set x"
  by (metis mset_shuffle set_mset_mset)

lemma set_py_take: "set (py_take n xs) \<subseteq> set xs"
  by (auto simp: py_take_def dest: in_set_takeD)

lemma length_py_take: "length (py_take n xs) \<le> length xs"
  by (simp add: py_take_def)

lemma py_take_all: "n = int (length xs) \<Longrightarrow> py_take n xs = xs"
  by (simp add: py_take_def)

lemma set_select_casts: "set (select_casts E k cd tc) \<subseteq> set cd"
  using set_py_take [of _ "shuffle E k cd"] by (simp add: select_casts_def)

lemma select_casts_scarce:
  assumes "int (length cd) < tc"
  shows "effective_target cd tc = int (length cd)"
    and "select_casts E k cd tc = shuffle E k cd"
  using assms by (simp_all add: effective_target_def select_casts_def py_take_all)

lemma execute_after_feed:
  assumes "get_feed E B tok (max 100 (tc * 2)) (emit (Print_focus idx a tc) w)
             = (Inr (ok, cd), w1)"
  shows "execute_focused_action E B tok idx a tc w =
         (if \<not> ok \<or> cd = [] then (Inr 0, w1)
          else case focus_loop E B tok a (effective_target cd tc)
                      (select_casts E (calls w1) cd tc) 1 0 [] w1 of
                 (Inl e, w2) \<Rightarrow> (Inl e, w2)
               | (Inr (sc, F), w2) \<Rightarrow> (Inr sc, w2))"
  using assms by (simp add: execute_focused_action_def)

lemma execute_loop_result:
  assumes "get_feed E B tok (max 100 (tc * 2)) (emit (Print_focus idx a tc) w)
             = (Inr (True, cd), w1)"
    and "cd \<noteq> []"
    and "execute_focused_action E B tok idx a tc w = (Inr n, w2)"
  shows "\<exists>F. focus_loop E B tok a (effective_target cd tc)
                (select_casts E (calls w1) cd tc) 1 0 [] w1 = (Inr (n, F), w2)"
proof -
  let ?loop = "focus_loop E B tok a (effective_target cd tc)
                (select_casts E (calls w1) cd tc) 1 0 [] w1"
  obtain r w' where fl: "?loop = (r, w')" by (cases ?loop)
  from execute_after_feed [OF assms(1)] assms(2)
  have ex: "execute_focused_action E B tok idx a tc w =
            (case ?loop of (Inl e, w2) \<Rightarrow> (Inl e, w2)
                         | (Inr (sc, F), w2) \<Rightarrow> (Inr sc, w2))"
    by simp
  show ?thesis
  proof (cases r)
    case (Inl e)
    with ex fl assms(3) show ?thesis by simp
  next
    case (Inr p)
    obtain sc F where p: "p = (sc, F)" by (cases p)
    with ex fl assms(3) Inr have "n = sc" "w2 = w'" by simp_all
    with fl Inr p show ?thesis by simp
  qed
qed

lemmas focus_defs =
  execute_focused_action_def effective_target_def select_casts_def py_take_def shuffle_def
  focus_dispatch_def action_wait_def py_set_contains_def py_set_add_def py_eq_def

section \<open>C7: a feed with fewer targets than asked for\<close>

text \<open>
  C7: when the feed gives \<open>m\<close> targets with \<open>0 < m < target_count\<close>, the runner lowers
  the target count to \<open>m\<close> and runs its loop over a permutation of exactly these \<open>m\<close>
  targets; a run that returns has processed each of them, in that order: in like and recast
  mode every target got at least one request carrying its hash, in follow mode every target
  got at least one request carrying its author id unless that author was in the
  followed-set, in which case it was skipped; and the returned count, between 0 and
  \<open>m\<close>, is the number of these requests answered by status 200 plus the number of
  skipped targets. When the fetch fails or gives no target, the runner returns 0 at once,
  in the world that the fetch left.
\<close>

theorem feed_scarcity:
  assumes "get_feed E B tok (max 100 (target_count * 2))
             (emit (Print_focus idx a target_count) w) = (Inr (ok, cast_data), w1)"
  shows "(ok \<and> cast_data \<noteq> [] \<and> int (length cast_data) < target_count \<longrightarrow>
            effective_target cast_data target_count = int (length cast_data)
          \<and> mset (select_casts E (calls w1) cast_data target_count) = mset cast_data
          \<and> execute_focused_action E B tok idx a target_count w =
              (case focus_loop E B tok a (int (length cast_data))
                      (select_casts E (calls w1) cast_data target_count) 1 0 [] w1 of
                 (Inl e, w2) \<Rightarrow> (Inl e, w2)
               | (Inr (sc, F), w2) \<Rightarrow> (Inr sc, w2))
          \<and> (\<forall>n w2. execute_focused_action E B tok idx a target_count w = (Inr n, w2) \<longrightarrow>
                 0 \<le> n \<and> n \<le> int (length cast_data)
               \<and> (a = ''like'' \<longrightarrow>
                    (\<exists>ks. 0 \<notin> set ks
                        \<and> processed B ''cast-likes'' ''castHash''
                            (map hash (select_casts E (calls w1) cast_data target_count)) n
                            (new_events w w2) ks))
               \<and> (a = ''recast'' \<longrightarrow>
                    (\<exists>ks. 0 \<notin> set ks
                        \<and> processed B ''recasts'' ''castHash''
                            (map hash (select_casts E (calls w1) cast_data target_count)) n
                            (new_events w w2) ks))
               \<and> (a = ''follow'' \<longrightarrow>
                    (\<exists>ks ss. follow_trace B []
                            (map fid (select_casts E (calls w1) cast_data target_count)) n
                            (new_events w w2) ks ss))))
       \<and> (\<not> ok \<or> cast_data = [] \<longrightarrow>
            execute_focused_action E B tok idx a target_count w = (Inr 0, w1))"
proof (intro conjI impI)
  assume "\<not> ok \<or> cast_data = []"
  with execute_after_feed [OF assms]
  show "execute_focused_action E B tok idx a target_count w = (Inr 0, w1)" by simp
next
  assume h: "ok \<and> cast_data \<noteq> [] \<and> int (length cast_data) < target_count"
  then have lt: "int (length cast_data) < target_count" by simp
  note sc = select_casts_scarce [OF lt]
  let ?sel = "select_casts E (calls w1) cast_data target_count"
  show "effective_target cast_data target_count = int (length cast_data)" by (rule sc(1))
  show "mset ?sel = mset cast_data"
    by (simp add: sc(2))
  from execute_after_feed [OF assms] h
  show ex: "execute_focused_action E B tok idx a target_count w =
              (case focus_loop E B tok a (int (length cast_data)) ?sel 1 0 [] w1 of
                 (Inl e, w2) \<Rightarrow> (Inl e, w2)
               | (Inr (sc, F), w2) \<Rightarrow> (Inr sc, w2))"
    by (simp add: sc(1))
  show "\<forall>n w2. execute_focused_action E B tok idx a target_count w = (Inr n, w2) \<longrightarrow>
                 0 \<le> n \<and> n \<le> int (length cast_data)
               \<and> (a = ''like'' \<longrightarrow>
                    (\<exists>ks. 0 \<notin> set ks
                        \<and> processed B ''cast-likes'' ''castHash'' (map hash ?sel) n
                            (new_events w w2) ks))
               \<and> (a = ''recast'' \<longrightarrow>
                    (\<exists>ks. 0 \<notin> set ks
                        \<and> processed B ''recasts'' ''castHash'' (map hash ?sel) n
                            (new_events w w2) ks))
               \<and> (a = ''follow'' \<longrightarrow>
                    (\<exists>ks ss. follow_trace B [] (map fid ?sel) n (new_events w w2) ks ss))"
  proof (intro allI impI conjI)
    fix n w2
    assume r: "execute_focused_action E B tok idx a target_count w = (Inr n, w2)"
    from h assms have gf: "get_feed E B tok (max 100 (target_count * 2))
             (emit (Print_focus idx a target_count) w) = (Inr (True, cast_data), w1)"
      by simp
    from h have ne: "cast_data \<noteq> []" by simp
    have mr: "0 < max_retries B" using gf by (rule get_feed_ok_retries)
    from execute_loop_result [OF gf ne r] obtain F where
      fl: "focus_loop E B tok a (effective_target cast_data target_count) ?sel 1 0 [] w1
             = (Inr (n, F), w2)"
      by blast
    from focus_loop_events [OF fl]
    have b: "0 \<le> n \<and> n \<le> 0 + int (length ?sel)"
      by blast
    from b show "0 \<le> n" by simp
    from b show "n \<le> int (length cast_data)" by (simp add: sc(2))
    {
      assume a: "a = ''like''"
      then have "(a = ''like'' \<and> ''cast-likes'' = ''cast-likes'')
          \<or> (a = ''recast'' \<and> ''cast-likes'' = ''recasts'')" by simp
      from focus_loop_hash [OF this mr fl] obtain evs ks where
        t: "trace w2 = trace w1 @ evs" and nz: "0 \<notin> set ks"
        and p: "processed B ''cast-likes'' ''castHash'' (map hash ?sel) (n - 0) evs ks"
        by (elim exE conjE)
      have "endpoint_requests B ''cast-likes'' (new_events w w2)
            = endpoint_requests B ''cast-likes'' evs"
        by (rule run_endpoint_requests(1) [OF gf t]) simp
      from processed_cong [OF this] p
      have "processed B ''cast-likes'' ''castHash'' (map hash ?sel) n (new_events w w2) ks"
        by simp
      with nz show "\<exists>ks. 0 \<notin> set ks
          \<and> processed B ''cast-likes'' ''castHash'' (map hash ?sel) n (new_events w w2) ks"
        by (intro exI [of _ ks] conjI)
    }
    {
      assume a: "a = ''recast''"
      then have "(a = ''like'' \<and> ''recasts'' = ''cast-likes'')
          \<or> (a = ''recast'' \<and> ''recasts'' = ''recasts'')" by simp
      from focus_loop_hash [OF this mr fl] obtain evs ks where
        t: "trace w2 = trace w1 @ evs" and nz: "0 \<notin> set ks"
        and p: "processed B ''recasts'' ''castHash'' (map hash ?sel) (n - 0) evs ks"
        by (elim exE conjE)
      have "endpoint_requests B ''recasts'' (new_events w w2)
            = endpoint_requests B ''recasts'' evs"
        by (rule run_endpoint_requests(1) [OF gf t]) simp
      from processed_cong [OF this] p
      have "processed B ''recasts'' ''castHash'' (map hash ?sel) n (new_events w w2) ks"
        by simp
      with nz show "\<exists>ks. 0 \<notin> set ks
          \<and> processed B ''recasts'' ''castHash'' (map hash ?sel) n (new_events w w2) ks"
        by (intro exI [of _ ks] conjI)
    }
    {
      assume a: "a = ''follow''"
      from focus_loop_follow_trace [OF mr fl [unfolded a]] obtain evs ks ss where
        t: "trace w2 = trace w1 @ evs"
        and p: "follow_trace B [] (map fid ?sel) (n - 0) evs ks ss"
        by (elim exE conjE)
      have e1: "endpoint_requests B ''follows'' (new_events w w2)
            = endpoint_requests B ''follows'' evs"
        by (rule run_endpoint_requests(1) [OF gf t]) simp
      have e2: "waits (new_events w w2) = waits evs"
        by (rule run_endpoint_requests(2) [OF gf t, of "''follows''"]) simp
      from p have "follow_trace B [] (map fid ?sel) n (new_events w w2) ks ss"
        unfolding follow_trace_cong [OF e1 e2] by simp
      then show "\<exists>ks ss. follow_trace B [] (map fid ?sel) n (new_events w w2) ks ss"
        by (intro exI)
    }
  qed
qed

theorem feed_scarcity_witness:
  "fst (execute_focused_action (env_of (feed_and two_author_feed (plain 200))) bot_default
          ''token'' 1 ''like'' 5 world_start) = Inr 3
   \<and> (\<exists>ks. 0 \<notin> set ks
         \<and> processed bot_default ''cast-likes'' ''castHash''
             [JStr ''0xb'', JStr ''0xc'', JStr ''0xa''] 3
             (new_events world_start
                (snd (execute_focused_action (env_of (feed_and two_author_feed (plain 200)))
                   bot_default ''token'' 1 ''like'' 5 world_start))) ks)
   \<and> fst (execute_focused_action (env_of (\<lambda>k r. plain 500)) bot_default
          ''token'' 1 ''like'' 5 world_start) = Inr 0"
proof -
  let ?E = "env_of (feed_and two_author_feed (plain 200))"
  let ?D = "env_of (\<lambda>k r. plain 500)"
  obtain w1 where gf: "get_feed ?E bot_default ''token'' (max 100 (5 * 2))
             (emit (Print_focus 1 ''like'' 5) world_start) = (Inr (True, two_author_casts), w1)"
    and w1: "calls w1 = 1"
    by (simp add: run_defs scenario_defs py_take_def)
  obtain v1 where gd: "get_feed ?D bot_default ''token'' (max 100 (5 * 2))
             (emit (Print_focus 1 ''like'' 5) world_start) = (Inr (False, []), v1)"
    by (simp add: run_defs scenario_defs py_take_def)
  have h: "True \<and> two_author_casts \<noteq> [] \<and> int (length two_author_casts) < 5"
    by (simp add: two_author_casts_def)
  have ex: "fst (execute_focused_action ?E bot_default ''token'' 1 ''like'' 5 world_start)
         = Inr 3"
    by (simp add: focus_defs run_defs scenario_defs)
  obtain w2 where r: "execute_focused_action ?E bot_default ''token'' 1 ''like'' 5 world_start
         = (Inr 3, w2)" using ex by (metis prod.collapse)
  have sel: "map hash (select_casts ?E (calls w1) two_author_casts 5)
         = [JStr ''0xb'', JStr ''0xc'', JStr ''0xa'']"
    by (simp add: w1 focus_defs scenario_defs)
  have like: "''like'' = ''like''" by (rule refl)
  note run = feed_scarcity [OF gf, THEN conjunct1, THEN mp, OF h, THEN conjunct2,
      THEN conjunct2, THEN conjunct2, THEN spec, THEN spec, THEN mp, OF r,
      THEN conjunct2, THEN conjunct2, THEN conjunct1, THEN mp, OF like]
  from run have "\<exists>ks. 0 \<notin> set ks
           \<and> processed bot_default ''cast-likes'' ''castHash''
               (map hash (select_casts ?E (calls w1) two_author_casts 5)) 3
               (new_events world_start w2) ks" .
  then have a: "\<exists>ks. 0 \<notin> set ks
         \<and> processed bot_default ''cast-likes'' ''castHash''
             [JStr ''0xb'', JStr ''0xc'', JStr ''0xa''] 3 (new_events world_start w2) ks"
    by (simp add: sel)
  from feed_scarcity [OF gd]
  have "execute_focused_action ?D bot_default ''token'' 1 ''like'' 5 world_start = (Inr 0, v1)"
    by simp
  with a ex r show ?thesis by simp
qed

lemma new_events_execute:
  assumes gf: "get_feed E B tok (max 100 (tc * 2)) (emit (Print_focus idx a tc) w)
             = (Inr (True, cd), w1)"
    and fl: "focus_loop E B tok a t sel i0 s0 F0 w1 = (res, w2)"
    and tr: "trace w2 = trace w1 @ evs"
  shows "\<exists>pre. new_events w w2 = pre @ evs \<and> follow_targets B pre = {}
             \<and> follow_successes B pre = []"
proof -
  from get_feed_events [OF gf] obtain ev0 where ev0:
    "trace w1 = trace (emit (Print_focus idx a tc) w) @ ev0" "quiet B ev0"
    by (elim exE conjE)
  let ?pre = "Print_focus idx a tc # ev0"
  have "trace w2 = trace w @ (?pre @ evs)" using ev0(1) tr by simp
  then have "new_events w w2 = ?pre @ evs" by (rule new_events_append)
  moreover have "follow_targets B ?pre = {}" "follow_successes B ?pre = []"
    using ev0(2) by (simp_all add: quiet_def follow_targets_def follow_successes_def)
  ultimately show ?thesis by blast
qed

section \<open>C3: successful follows and distinct authors\<close>

text \<open>
  C3 as the specification states it: the returned success count of a run in follow mode
  never exceeds the number of distinct author ids among the sampled targets. On a feed of
  three targets of one author, with every request answered by 200, the run returns 3.
\<close>

theorem follow_calls_bounded_counterexample:
  "fst (get_feed (env_of (feed_and same_author_feed (plain 200))) bot_default ''token'' 100
          (emit (Print_focus 1 ''follow'' 3) world_start)) = Inr (True, same_author_casts)
   \<and> card (fid ` set same_author_casts) = 1
   \<and> fst (execute_focused_action (env_of (feed_and same_author_feed (plain 200))) bot_default
          ''token'' 1 ''follow'' 3 world_start) = Inr 3"
  by (simp add: focus_defs run_defs scenario_defs)

text \<open>
  C3, amended: in a run in follow mode the number of successful follow calls (requests to
  \<^verbatim>\<open>follows\<close> answered by status 200) never exceeds the number of distinct author ids
  among the sampled targets; the returned success count, which also counts every later
  target of an author already followed, lies between 0 and the number of sampled targets.
\<close>

theorem follow_calls_bounded:
  assumes "get_feed E B tok (max 100 (tc * 2)) (emit (Print_focus idx ''follow'' tc) w)
             = (Inr (True, cast_data), w1)"
    and "cast_data \<noteq> []"
    and "execute_focused_action E B tok idx ''follow'' tc w = (Inr n, w2)"
  shows "length (follow_successes B (new_events w w2))
           \<le> card (fid ` set (select_casts E (calls w1) cast_data tc))
       \<and> 0 \<le> n \<and> n \<le> int (length (select_casts E (calls w1) cast_data tc))"
proof -
  let ?sel = "select_casts E (calls w1) cast_data tc"
  from execute_loop_result [OF assms] obtain F where
    fl: "focus_loop E B tok ''follow'' (effective_target cast_data tc) ?sel 1 0 [] w1
           = (Inr (n, F), w2)" by blast
  from focus_loop_follow [OF fl] obtain evs where evs:
    "trace w2 = trace w1 @ evs" "follow_run B [] ?sel F evs" by auto
  note fr = follow_runD [OF evs(2)]
  from new_events_execute [OF assms(1) fl evs(1)] obtain pre where pre:
    "new_events w w2 = pre @ evs" "follow_successes B pre = []" by blast
  have "length (follow_successes B (new_events w w2)) = length F"
    using pre fr(3) by simp
  also have "\<dots> = card (set F)" using fr(1) by (simp add: distinct_card)
  also have "\<dots> \<le> card (fid ` set ?sel)" using fr(2) by (intro card_mono) auto
  finally have a: "length (follow_successes B (new_events w w2)) \<le> card (fid ` set ?sel)" .
  from focus_loop_events [OF fl] have "0 \<le> n \<and> n \<le> 0 + int (length ?sel)" by blast
  with a show ?thesis by simp
qed

theorem follow_calls_bounded_witness:
  "length (follow_successes bot_default (new_events world_start
      (snd (execute_focused_action (env_of (feed_and same_author_feed (plain 200))) bot_default
          ''token'' 1 ''follow'' 3 world_start)))) \<le> 1"
proof -
  let ?E = "env_of (feed_and same_author_feed (plain 200))"
  obtain w1 where gf: "get_feed ?E bot_default ''token'' (max 100 (3 * 2))
             (emit (Print_focus 1 ''follow'' 3) world_start)
           = (Inr (True, same_author_casts), w1)"
    by (simp add: run_defs scenario_defs py_take_def)
  have ne: "same_author_casts \<noteq> []" by (simp add: same_author_casts_def)
  obtain w2 where ex: "execute_focused_action ?E bot_default ''token'' 1 ''follow'' 3 world_start
         = (Inr 3, w2)"
    by (simp add: focus_defs run_defs scenario_defs)
  have "fid ` set (select_casts ?E (calls w1) same_author_casts 3) \<subseteq> {JInt 7}"
    using set_select_casts [of ?E "calls w1" same_author_casts 3]
    by (auto simp: scenario_defs)
  then have "card (fid ` set (select_casts ?E (calls w1) same_author_casts 3)) \<le> 1"
    by (metis card_mono card_Suc_eq card.empty finite.emptyI finite.insertI One_nat_def
        card.insert empty_iff)
  with follow_calls_bounded [OF gf ne ex] ex show ?thesis by simp
qed

section \<open>C6: one follow call per distinct author\<close>

text \<open>
  C6 as the specification states it: with \<open>k\<close> distinct author ids among the sampled
  targets, exactly \<open>k\<close> follow calls are issued. On a feed of three targets of one
  author (\<open>k = 1\<close>), with every follow request answered by status 500, the run sends
  three follow requests for that author, one per target, with the two waits between the
  targets: the author never enters the followed-set, so every target is called again.
\<close>

theorem follow_deduplication_counterexample:
  "fst (get_feed (env_of (feed_and same_author_feed (plain 500))) bot_default ''token'' 100
          (emit (Print_focus 1 ''follow'' 3) world_start)) = Inr (True, same_author_casts)
   \<and> card (fid ` set same_author_casts) = 1
   \<and> endpoint_calls bot_default ''follows'' ''targetFid''
       (trace (snd (execute_focused_action (env_of (feed_and same_author_feed (plain 500)))
          bot_default ''token'' 1 ''follow'' 3 world_start))) = [JInt 7, JInt 7, JInt 7]
   \<and> waits (trace (snd (execute_focused_action (env_of (feed_and same_author_feed (plain 500)))
          bot_default ''token'' 1 ''follow'' 3 world_start))) = 2"
  by (simp add: focus_defs run_defs scenario_defs endpoint_calls_def endpoint_requests_def
      json_field_def waits_def)

text \<open>
  C6, amended: a run in follow mode goes through the sampled targets in order. A target
  whose author id is in the followed-set gets no follow request and no wait, and counts as
  one success; any other target gets one follow call (one request or more, since the client
  retries), and its author id joins the followed-set exactly when that call succeeded, so
  an author whose call failed is called again at the next of their targets. The returned
  count is the number of follow requests answered by status 200 plus the number of skipped
  targets. When every follow request is answered by status 200 and the author ids are
  integers, the run sends exactly one follow request per distinct author, \<open>k\<close> in all,
  in the order of their first occurrence, and returns the number of sampled targets.
\<close>

theorem follow_deduplication:
  assumes "get_feed E B tok (max 100 (tc * 2)) (emit (Print_focus idx ''follow'' tc) w)
             = (Inr (True, cast_data), w1)"
    and "cast_data \<noteq> []"
    and "execute_focused_action E B tok idx ''follow'' tc w = (Inr n, w2)"
  shows "(\<exists>ks ss. follow_trace B [] (map fid (select_casts E (calls w1) cast_data tc)) n
                    (new_events w w2) ks ss)
       \<and> ((\<forall>k r. url r = api_url B @ ''/follows'' \<longrightarrow> answered_200 (transport E k r))
            \<and> (\<forall>c \<in> set cast_data. \<exists>i. fid c = JInt i) \<longrightarrow>
            endpoint_calls B ''follows'' ''targetFid'' (new_events w w2)
              = authors_called [] (map fid (select_casts E (calls w1) cast_data tc))
          \<and> length (endpoint_calls B ''follows'' ''targetFid'' (new_events w w2))
              = card (fid ` set (select_casts E (calls w1) cast_data tc))
          \<and> n = int (length (select_casts E (calls w1) cast_data tc)))"
proof (intro conjI impI)
  let ?sel = "select_casts E (calls w1) cast_data tc"
  from execute_loop_result [OF assms(1-3)] obtain F where
    fl: "focus_loop E B tok ''follow'' (effective_target cast_data tc) ?sel 1 0 [] w1
           = (Inr (n, F), w2)" by blast
  have mr: "0 < max_retries B" using assms(1) by (rule get_feed_ok_retries)
  from focus_loop_follow_trace [OF mr fl] obtain evs ks ss where
    t: "trace w2 = trace w1 @ evs"
    and p: "follow_trace B [] (map fid ?sel) (n - 0) evs ks ss"
    by (elim exE conjE)
  have e1: "endpoint_requests B ''follows'' (new_events w w2)
      = endpoint_requests B ''follows'' evs"
    by (rule run_endpoint_requests(1) [OF assms(1) t]) simp
  have e2: "waits (new_events w w2) = waits evs"
    by (rule run_endpoint_requests(2) [OF assms(1) t, of "''follows''"]) simp
  from p have "follow_trace B [] (map fid ?sel) n (new_events w w2) ks ss"
    unfolding follow_trace_cong [OF e1 e2] by simp
  then show "\<exists>ks ss. follow_trace B [] (map fid ?sel) n (new_events w w2) ks ss"
    by (intro exI)
  assume h: "(\<forall>k r. url r = api_url B @ ''/follows'' \<longrightarrow> answered_200 (transport E k r))
            \<and> (\<forall>c \<in> set cast_data. \<exists>i. fid c = JInt i)"
  then have ok: "\<forall>k r. url r = api_url B @ ''/follows'' \<longrightarrow> answered_200 (transport E k r)"
    by (rule conjunct1)
  have ints: "\<forall>c \<in> set ?sel. \<exists>i. fid c = JInt i"
    using h set_select_casts [of E "calls w1" cast_data tc] by blast
  have f0: "\<forall>v \<in> set ([] :: json list). \<exists>i. v = JInt i" by simp
  from focus_loop_follow_all_ok [OF ok mr ints f0 fl] obtain ev2 where
    t2: "trace w2 = trace w1 @ ev2"
    and c2: "endpoint_calls B ''follows'' ''targetFid'' ev2 = authors_called [] (map fid ?sel)"
    and n2: "n = 0 + int (length ?sel)" by (elim exE conjE)
  have "endpoint_requests B ''follows'' (new_events w w2) = endpoint_requests B ''follows'' ev2"
    by (rule run_endpoint_requests(1) [OF assms(1) t2]) simp
  then have "endpoint_calls B ''follows'' ''targetFid'' (new_events w w2)
      = endpoint_calls B ''follows'' ''targetFid'' ev2" by (simp add: endpoint_calls_def)
  with c2 show c: "endpoint_calls B ''follows'' ''targetFid'' (new_events w w2)
      = authors_called [] (map fid ?sel)" by simp
  show "length (endpoint_calls B ''follows'' ''targetFid'' (new_events w w2))
      = card (fid ` set ?sel)"
    unfolding c by (simp add: length_authors_called)
  from n2 show "n = int (length ?sel)" by simp
qed

theorem follow_deduplication_witness:
  "endpoint_calls bot_default ''follows'' ''targetFid'' (new_events world_start
      (snd (execute_focused_action (env_of (feed_and two_author_feed (plain 200))) bot_default
          ''token'' 1 ''follow'' 3 world_start))) = [JInt 7, JInt 8]"
proof -
  let ?E = "env_of (feed_and two_author_feed (plain 200))"
  obtain w1 where gf: "get_feed ?E bot_default ''token'' (max 100 (3 * 2))
             (emit (Print_focus 1 ''follow'' 3) world_start)
           = (Inr (True, two_author_casts), w1)" and w1: "calls w1 = 1"
    by (simp add: run_defs scenario_defs py_take_def)
  have ne: "two_author_casts \<noteq> []" by (simp add: two_author_casts_def)
  obtain w2 where ex: "execute_focused_action ?E bot_default ''token'' 1 ''follow'' 3 world_start
         = (Inr 3, w2)"
    by (simp add: focus_defs run_defs scenario_defs)
  have h: "(\<forall>k r. url r = api_url bot_default @ ''/follows''
               \<longrightarrow> answered_200 (transport ?E k r))
         \<and> (\<forall>c \<in> set two_author_casts. \<exists>i. fid c = JInt i)"
    by (simp add: scenario_defs)
  have sel: "map fid (select_casts ?E (calls w1) two_author_casts 3) = [JInt 7, JInt 8, JInt 7]"
    by (simp add: w1 focus_defs scenario_defs)
  from follow_deduplication [OF gf ne ex, THEN conjunct2, THEN mp, OF h]
  have "endpoint_calls bot_default ''follows'' ''targetFid'' (new_events world_start w2)
      = authors_called [] (map fid (select_casts ?E (calls w1) two_author_casts 3))"
    by (rule conjunct1)
  then show ?thesis using ex by (simp add: sel)
qed

section \<open>The batch loop\<close>

lemma execute_focus_counts:
  assumes "execute_focused_action E B tok idx a tc w = (res, w')"
  shows "\<exists>evs. trace w' = trace w @ evs \<and> focus_counts evs = [tc]"
proof -
  let ?w0 = "emit (Print_focus idx a tc) w"
  obtain r w1 where gf: "get_feed E B tok (max 100 (tc * 2)) ?w0 = (r, w1)"
    by (cases "get_feed E B tok (max 100 (tc * 2)) ?w0")
  from get_feed_events [OF gf] obtain ev0 where ev0:
    "trace w1 = trace ?w0 @ ev0" "quiet B ev0" by (elim exE conjE)
  have t1: "trace w1 = trace w @ (Print_focus idx a tc # ev0)" using ev0(1) by simp
  have c1: "focus_counts (Print_focus idx a tc # ev0) = [tc]"
    using ev0(2) by (simp add: quiet_def)
  show ?thesis
  proof (cases r)
    case (Inl e)
    with assms gf have "w' = w1" by (simp add: execute_focused_action_def)
    with t1 c1 show ?thesis by blast
  next
    case (Inr p)
    obtain ok cd where p: "p = (ok, cd)" by (cases p)
    show ?thesis
    proof (cases "\<not> ok \<or> cd = []")
      case True
      with assms gf Inr p have "w' = w1" by (simp add: execute_focused_action_def)
      with t1 c1 show ?thesis by blast
    next
      case False
      let ?loop = "focus_loop E B tok a (effective_target cd tc)
                     (select_casts E (calls w1) cd tc) 1 0 [] w1"
      obtain r2 w2 where fl: "?loop = (r2, w2)" by (cases ?loop)
      from assms gf Inr p False fl have "w' = w2"
        by (auto simp: execute_focused_action_def split: sum.splits prod.splits)
      moreover from focus_loop_events [OF fl] obtain ev2 where
        "trace w2 = trace w1 @ ev2" "focus_counts ev2 = []" by blast
      ultimately have "trace w' = trace w @ ((Print_focus idx a tc # ev0) @ ev2)"
        "focus_counts ((Print_focus idx a tc # ev0) @ ev2) = [tc]"
        using t1 c1 by simp_all
      then show ?thesis by blast
    qed
  qed
qed

lemma batch_loop_total:
  assumes "0 < bs"
  shows "\<exists>res w' evs. batch_loop E B tok idx a bs remaining bc st w = Some (res, w')
           \<and> trace w' = trace w @ evs \<and> batches_ok bs remaining res evs"
proof (induction "nat remaining" arbitrary: remaining bc st w rule: less_induct)
  case less
  show ?case
  proof (cases "remaining > 0")
    case False
    then have "batch_loop E B tok idx a bs remaining bc st w = Some (Inr st, w)"
      by (subst batch_loop.simps) simp
    moreover have "batches_ok bs remaining (Inr st) []"
      using False by (simp add: batches_ok_def)
    ultimately show ?thesis by (intro exI [of _ "Inr st"] exI [of _ w] exI [of _ "[]"]) simp
  next
    case True
    let ?cb = "min bs remaining"
    let ?w0 = "emit (Print_batch (bc + 1) ?cb a) w"
    have cb: "0 < ?cb" "?cb \<le> bs" "?cb \<le> remaining" using assms True by simp_all
    obtain r w1 where ex: "execute_focused_action E B tok idx a ?cb ?w0 = (r, w1)"
      by (cases "execute_focused_action E B tok idx a ?cb ?w0")
    from execute_focus_counts [OF ex] obtain ev1 where ev1:
      "trace w1 = trace ?w0 @ ev1" "focus_counts ev1 = [?cb]" by blast
    let ?pre = "Print_batch (bc + 1) ?cb a # ev1"
    have t1: "trace w1 = trace w @ ?pre" using ev1(1) by simp
    have c1: "focus_counts ?pre = [?cb]" using ev1(2) by simp
    have stop: "batches_ok bs remaining (Inl e) ?pre" for e
      using c1 cb by (simp add: batches_ok_def)
    show ?thesis
    proof (cases r)
      case (Inl e)
      with ex True have "batch_loop E B tok idx a bs remaining bc st w = Some (Inl e, w1)"
        by (subst batch_loop.simps) (simp add: Let_def)
      with t1 stop show ?thesis by blast
    next
      case (Inr success)
      show ?thesis
      proof (cases "stats_add a success st")
        case (Inl e)
        with ex True Inr
        have "batch_loop E B tok idx a bs remaining bc st w = Some (Inl e, w1)"
          by (subst batch_loop.simps) (simp add: Let_def)
        with t1 stop show ?thesis by blast
      next
        case st1: (Inr st1)
        let ?rem = "remaining - ?cb"
        let ?w2 = "if ?rem > 0 then emit (Sleep_uniform 30 60) w1 else w1"
        let ?sl = "if ?rem > 0 then [Sleep_uniform 30 60] else []"
        have w2: "trace ?w2 = trace w1 @ ?sl" by simp
        have csl: "focus_counts ?sl = []" by simp
        have step: "batch_loop E B tok idx a bs remaining bc st w =
                    batch_loop E B tok idx a bs ?rem (bc + 1) st1 ?w2"
          using ex True Inr st1 by (subst batch_loop.simps) (simp add: Let_def)
        have "nat ?rem < nat remaining" using cb True by linarith
        from less [OF this, of "bc + 1" st1 ?w2] obtain res w' ev2 where rest:
          "batch_loop E B tok idx a bs ?rem (bc + 1) st1 ?w2 = Some (res, w')"
          "trace w' = trace ?w2 @ ev2" "batches_ok bs ?rem res ev2" by blast
        let ?evs = "?pre @ ?sl @ ev2"
        have t: "trace w' = trace w @ ?evs" using t1 w2 rest(2) by simp
        have fc: "focus_counts ?evs = ?cb # focus_counts ev2" using c1 csl by simp
        have "batches_ok bs remaining res ?evs"
          unfolding batches_ok_def fc using rest(3) cb True
          by (auto simp: batches_ok_def)
        with step rest(1) t show ?thesis by metis
      qed
    qed
  qed
qed

lemmas mode_defs =
  run_focused_mode_action_def batch_loop.simps stats_add_def

section \<open>C2: the batch sizes\<close>

text \<open>
  C2: for a positive target count and a positive batch size, the work of
  \<^verbatim>\<open>run_focused_mode\<close> on one action ends, every batch size it hands to
  \<^verbatim>\<open>execute_focused_action\<close> (one batch of the whole count when the count is at most the
  batch size, \<open>min batch_size remaining\<close> again and again otherwise) is positive and at
  most the batch size, and when the work ends without an exception the batch sizes add up
  to the target count.
\<close>

theorem batch_schedule:
  assumes "0 < target" and "0 < batch_size B"
  shows "\<exists>res w'. run_focused_mode_action E B tok idx a target st w = Some (res, w')
           \<and> (\<forall>b \<in> set (focus_counts (new_events w w')). 0 < b \<and> b \<le> batch_size B)
           \<and> ((\<exists>st'. res = Inr st') \<longrightarrow> sum_list (focus_counts (new_events w w')) = target)"
proof (cases "target > batch_size B")
  case True
  then have bs: "min (batch_size B) target = batch_size B" by simp
  from batch_loop_total [OF assms(2), of E B tok idx a target 0 st w]
  obtain res w' evs where r:
    "batch_loop E B tok idx a (batch_size B) target 0 st w = Some (res, w')"
    "trace w' = trace w @ evs" "batches_ok (batch_size B) target res evs" by blast
  from r(1) True bs have "run_focused_mode_action E B tok idx a target st w = Some (res, w')"
    by (simp add: run_focused_mode_action_def)
  moreover have "new_events w w' = evs" using r(2) by (rule new_events_append)
  ultimately show ?thesis using r(3) assms(1) by (auto simp: batches_ok_def)
next
  case False
  obtain r w1 where ex: "execute_focused_action E B tok idx a target w = (r, w1)"
    by (cases "execute_focused_action E B tok idx a target w")
  from execute_focus_counts [OF ex] obtain evs where evs:
    "trace w1 = trace w @ evs" "focus_counts evs = [target]" by blast
  then have ne: "focus_counts (new_events w w1) = [target]" by (simp add: new_events_append)
  from ex False have "\<exists>res. run_focused_mode_action E B tok idx a target st w = Some (res, w1)"
    by (cases r; cases "stats_add a (projr r) st") (simp_all add: run_focused_mode_action_def)
  then obtain res where
    "run_focused_mode_action E B tok idx a target st w = Some (res, w1)" by blast
  with ne False assms(1) show ?thesis by auto
qed

theorem batch_schedule_witness:
  "\<exists>w'. run_focused_mode_action (env_of (feed_and two_author_feed (plain 200))) bot_default
            ''token'' 1 ''like'' 120 [(''like'', 0)] world_start
          = Some (Inr [(''like'', 9)], w')
        \<and> focus_counts (new_events world_start w') = [50, 50, 20]
        \<and> sum_list (focus_counts (new_events world_start w')) = 120"
proof -
  let ?E = "env_of (feed_and two_author_feed (plain 200))"
  have a: "(0::int) < 120" and b: "0 < batch_size bot_default"
    by (simp_all add: bot_default_def)
  obtain W where run: "run_focused_mode_action ?E bot_default ''token'' 1 ''like'' 120
        [(''like'', 0)] world_start = Some (Inr [(''like'', 9)], W)"
    and fc: "focus_counts (new_events world_start W) = [50, 50, 20]"
    by (simp add: mode_defs focus_defs run_defs scenario_defs new_events_def)
  from batch_schedule [OF a b, of ?E "''token''" 1 "''like''" "[(''like'', 0)]" world_start] run
  have "sum_list (focus_counts (new_events world_start W)) = 120" by auto
  with run fc show ?thesis by blast
qed

section \<open>C5: continuous mode and batches\<close>

text \<open>
  C5 says that a cycle of continuous mode splits a target count above the batch size into
  batches as the single pass does. With the default batch size 50, the plan
  \<open>{like: 120}\<close> and a feed of three targets, the action loop of \<^verbatim>\<open>run_focused_mode\<close>
  runs \<^verbatim>\<open>execute_focused_action\<close> three times, with 50, 50 and 20 targets, and counts 9
  likes; the action loop of \<^verbatim>\<open>run_continuous_mode\<close> runs it once with 120 targets and
  counts 3.
\<close>

theorem continuous_mode_skips_batches:
  "map_option (\<lambda>rw. (fst rw, focus_counts (trace (snd rw))))
     (run_focused_mode_actions (env_of (feed_and two_author_feed (plain 200))) bot_default
        ''token'' 1 [''like''] [(''like'', 120)] [(''like'', 0)] world_start)
     = Some (Inr [(''like'', 9)], [50, 50, 20])
   \<and> (\<lambda>rw. (fst rw, focus_counts (trace (snd rw))))
     (run_continuous_mode_actions (env_of (feed_and two_author_feed (plain 200))) bot_default
        ''token'' 1 [''like''] [(''like'', 120)] [(''like'', 0)] world_start)
     = (Inr [(''like'', 3)], [120])"
  by (simp add: mode_defs focus_defs run_defs scenario_defs)


end
